theory Spec2Isabelle
  imports Main
begin

section \<open>Text as a sequence of code points\<close>

text \<open>
  A Python \<open>str\<close> is a sequence of Unicode code points. The normaliser works on the code
  points U+FFFD, U+20AC and U+2014, which an 8-bit \<open>char\<close> cannot hold, so a text is a
  list of code points, each a natural number.
\<close>

type_synonym ustr = "nat list"

definition ascii :: "string \<Rightarrow> ustr" where
  "ascii s = map of_char s"

abbreviation NL :: nat where "NL \<equiv> 10"
abbreviation SPACE :: nat where "SPACE \<equiv> 32"
abbreviation PIPE :: nat where "PIPE \<equiv> 124"
abbreviation BACKTICK :: nat where "BACKTICK \<equiv> 96"
abbreviation REPLACEMENT_CHAR :: nat where "REPLACEMENT_CHAR \<equiv> 65533"
abbreviation EURO :: nat where "EURO \<equiv> 8364"
abbreviation EM_DASH :: nat where "EM_DASH \<equiv> 8212"

text \<open>
  White space is what \<open>str.isspace\<close>, \<open>str.strip()\<close> and the pattern \<open>\s\<close> of a
  \<open>str\<close> pattern accept: U+0009..U+000D, U+001C..U+0020, U+0085, U+00A0, U+1680,
  U+2000..U+200A, U+2028, U+2029, U+202F, U+205F and U+3000.
\<close>

definition is_space :: "nat \<Rightarrow> bool" where
  "is_space c \<longleftrightarrow>
     (9 \<le> c \<and> c \<le> 13) \<or> (28 \<le> c \<and> c \<le> 32) \<or> c = 133 \<or> c = 160 \<or> c = 5760 \<or>
     (8192 \<le> c \<and> c \<le> 8202) \<or> c = 8232 \<or> c = 8233 \<or> c = 8239 \<or> c = 8287 \<or> c = 12288"

text \<open>
  \<open>\d\<close> accepts the decimal digits of the Unicode database and \<open>\w\<close> its alphanumerics
  and the underscore. The database is not part of the repository: its classification
  of the code points from U+0080 on is a parameter. The ASCII range is written out, and
  so is what every version of the database says of the code points the program names:
  white space, U+FFFD, U+20AC and U+2014 are neither digits nor alphanumeric.
\<close>

record ucd =
  decimal :: "nat \<Rightarrow> bool"
  alnum :: "nat \<Rightarrow> bool"

definition ascii_only :: ucd where
  "ascii_only = \<lparr>decimal = (\<lambda>c. False), alnum = (\<lambda>c. False)\<rparr>"

definition symbol_or_space :: "nat \<Rightarrow> bool" where
  "symbol_or_space c \<longleftrightarrow> is_space c \<or> c = REPLACEMENT_CHAR \<or> c = EURO \<or> c = EM_DASH"

definition is_digit :: "ucd \<Rightarrow> nat \<Rightarrow> bool" where
  "is_digit U c =
     (if c < 128 then 48 \<le> c \<and> c \<le> 57 else decimal U c \<and> \<not> symbol_or_space c)"

definition is_word :: "ucd \<Rightarrow> nat \<Rightarrow> bool" where
  "is_word U c =
     (if c < 128
      then (48 \<le> c \<and> c \<le> 57) \<or> (65 \<le> c \<and> c \<le> 90) \<or> (97 \<le> c \<and> c \<le> 122) \<or> c = 95
      else (alnum U c \<or> decimal U c) \<and> \<not> symbol_or_space c)"

subsection \<open>Strings: strip, split, join\<close>

definition lstrip_by :: "(nat \<Rightarrow> bool) \<Rightarrow> ustr \<Rightarrow> ustr" where
  "lstrip_by P s = dropWhile P s"

definition rstrip_by :: "(nat \<Rightarrow> bool) \<Rightarrow> ustr \<Rightarrow> ustr" where
  "rstrip_by P s = rev (dropWhile P (rev s))"

definition strip :: "ustr \<Rightarrow> ustr" where
  "strip s = lstrip_by is_space (rstrip_by is_space s)"

definition rstrip :: "ustr \<Rightarrow> ustr" where
  "rstrip s = rstrip_by is_space s"

definition strip_newlines :: "ustr \<Rightarrow> ustr" where
  "strip_newlines s = lstrip_by (\<lambda>c. c = NL) (rstrip_by (\<lambda>c. c = NL) s)"

fun split_lines :: "ustr \<Rightarrow> ustr list" where
  "split_lines [] = [[]]"
| "split_lines (c # cs) =
     (if c = NL then [] # split_lines cs
      else (case split_lines cs of [] \<Rightarrow> [[c]] | l # ls \<Rightarrow> (c # l) # ls))"

fun join_lines :: "ustr list \<Rightarrow> ustr" where
  "join_lines [] = []"
| "join_lines [l] = l"
| "join_lines (l # ls) = l @ NL # join_lines ls"

definition endswith :: "ustr \<Rightarrow> nat \<Rightarrow> bool" where
  "endswith s c \<longleftrightarrow> s \<noteq> [] \<and> last s = c"

definition startswith :: "ustr \<Rightarrow> nat \<Rightarrow> bool" where
  "startswith s c \<longleftrightarrow> s \<noteq> [] \<and> hd s = c"

subsection \<open>Substitution of every match of a pattern\<close>

text \<open>
  \<open>re.sub\<close> walks the text from the left; where the pattern matches it emits the
  replacement and goes on behind the match, elsewhere it copies one code point. A
  matcher tries its pattern at the head of the text and returns the replacement and
  the text behind the match. No pattern of the program matches the empty string; the
  test on the lengths says so to the termination checker.
\<close>

type_synonym matcher = "ustr \<Rightarrow> (ustr \<times> ustr) option"

fun re_sub :: "matcher \<Rightarrow> ustr \<Rightarrow> ustr" where
  "re_sub m [] = []"
| "re_sub m (c # cs) =
     (case m (c # cs) of
        None \<Rightarrow> c # re_sub m cs
      | Some (out, rest) \<Rightarrow>
          if length rest \<le> length cs then out @ re_sub m rest else c # re_sub m cs)"

section \<open>text_cleaner.normalize_for_llm\<close>

subsection \<open>Rule 1: HTML line breaks\<close>

text \<open>The tail \<open>/?>\<close> of the pattern \<open><br\s*/?>\<close>.\<close>

definition close_tag :: "ustr \<Rightarrow> ustr option" where
  "close_tag s =
     (case s of
        [] \<Rightarrow> None
      | x # t \<Rightarrow>
          if x = 47 then (case t of [] \<Rightarrow> None | y # t' \<Rightarrow> if y = 62 then Some t' else None)
          else if x = 62 then Some t
          else None)"

fun match_br :: matcher where
  "match_br (a # b # c # r) =
     (if a = 60 \<and> (b = 98 \<or> b = 66) \<and> (c = 114 \<or> c = 82)
      then (case close_tag (dropWhile is_space r) of
              None \<Rightarrow> None
            | Some t \<Rightarrow> Some ([NL], t))
      else None)"
| "match_br s = None"

definition html_breaks :: "ustr \<Rightarrow> ustr" where
  "html_breaks s = re_sub match_br s"

subsection \<open>Rule 2: the replacement character\<close>

definition match_word_pair :: "ucd \<Rightarrow> matcher" where
  "match_word_pair U s =
     (case s of
        [] \<Rightarrow> None
      | w1 # r \<Rightarrow>
          if is_word U w1
          then (case dropWhile is_space r of
                  [] \<Rightarrow> None
                | x # r2 \<Rightarrow>
                    if x = REPLACEMENT_CHAR
                    then (case dropWhile is_space r2 of
                            [] \<Rightarrow> None
                          | w2 # t \<Rightarrow>
                              if is_word U w2 then Some ([w1, SPACE, EM_DASH, SPACE, w2], t)
                              else None)
                    else None)
          else None)"

definition match_digit_marker :: "ucd \<Rightarrow> matcher" where
  "match_digit_marker U s =
     (case s of
        [] \<Rightarrow> None
      | d # r \<Rightarrow>
          if is_digit U d
          then (case dropWhile is_space r of
                  [] \<Rightarrow> None
                | x # r2 \<Rightarrow>
                    if x = REPLACEMENT_CHAR then Some ([d, EURO, SPACE], dropWhile is_space r2)
                    else None)
          else None)"

definition match_marker :: matcher where
  "match_marker s =
     (case dropWhile is_space s of
        [] \<Rightarrow> None
      | x # r2 \<Rightarrow>
          if x = REPLACEMENT_CHAR then Some ([SPACE, EM_DASH, SPACE], dropWhile is_space r2)
          else None)"

definition fix_replacement_char :: "ucd \<Rightarrow> ustr \<Rightarrow> ustr" where
  "fix_replacement_char U s =
     re_sub match_marker (re_sub (match_digit_marker U) (re_sub (match_word_pair U) s))"

subsection \<open>Rule 3: currency\<close>

definition eur_letters :: "nat \<Rightarrow> nat \<Rightarrow> nat \<Rightarrow> bool" where
  "eur_letters a b c \<longleftrightarrow> (a = 101 \<or> a = 69) \<and> (b = 117 \<or> b = 85) \<and> (c = 114 \<or> c = 82)"

definition boundary_before :: "ucd \<Rightarrow> nat option \<Rightarrow> bool" where
  "boundary_before U prev = (case prev of None \<Rightarrow> True | Some p \<Rightarrow> \<not> is_word U p)"

definition boundary_after :: "ucd \<Rightarrow> ustr \<Rightarrow> bool" where
  "boundary_after U r = (case r of [] \<Rightarrow> True | n # t \<Rightarrow> \<not> is_word U n)"

fun upper_eur :: "ucd \<Rightarrow> nat option \<Rightarrow> ustr \<Rightarrow> ustr" where
  "upper_eur U prev (a # b # c # r) =
     (if eur_letters a b c \<and> boundary_before U prev \<and> boundary_after U r
      then [69, 85, 82] @ upper_eur U (Some c) r
      else a # upper_eur U (Some a) (b # c # r))"
| "upper_eur U prev s = s"

definition decimal_part :: "ucd \<Rightarrow> ustr \<Rightarrow> (ustr \<times> ustr) option" where
  "decimal_part U r =
     (case r of
        [] \<Rightarrow> None
      | sep # r1 \<Rightarrow>
          if (sep = 46 \<or> sep = 44) \<and> takeWhile (is_digit U) r1 \<noteq> []
          then Some (sep # takeWhile (is_digit U) r1, dropWhile (is_digit U) r1)
          else None)"

definition euro_tail :: "ustr \<Rightarrow> ustr option" where
  "euro_tail r =
     (case dropWhile is_space r of
        [] \<Rightarrow> None
      | x # t \<Rightarrow> if x = EURO then Some (dropWhile is_space t) else None)"

definition match_amount_euro :: "ucd \<Rightarrow> matcher" where
  "match_amount_euro U s =
     (let d1 = takeWhile (is_digit U) s; r = dropWhile (is_digit U) s;
          plain = (case euro_tail r of
                     None \<Rightarrow> None
                   | Some t \<Rightarrow> Some (d1 @ [SPACE, 69, 85, 82, SPACE], t))
      in if d1 = [] then None
         else (case decimal_part U r of
                 None \<Rightarrow> plain
               | Some (frac, r') \<Rightarrow>
                   (case euro_tail r' of
                      None \<Rightarrow> plain
                    | Some t \<Rightarrow> Some (d1 @ frac @ [SPACE, 69, 85, 82, SPACE], t))))"

definition normalize_currency :: "ucd \<Rightarrow> ustr \<Rightarrow> ustr" where
  "normalize_currency U s = re_sub (match_amount_euro U) (upper_eur U None s)"

subsection \<open>Rule 4: table rows that continue on the next line\<close>

definition is_continuation :: "ustr \<Rightarrow> bool" where
  "is_continuation line \<longleftrightarrow> endswith (strip line) PIPE \<and> \<not> startswith (strip line) PIPE"

definition merge_step :: "ustr list \<Rightarrow> ustr \<Rightarrow> ustr list" where
  "merge_step merged line =
     (if is_continuation line \<and> merged \<noteq> []
      then butlast merged @ [last merged @ [SPACE] @ strip line]
      else merged @ [line])"

definition merge_rows :: "ustr list \<Rightarrow> ustr list" where
  "merge_rows lines = foldl merge_step [] lines"

subsection \<open>Rule 5: white space\<close>

definition match_blank_run :: matcher where
  "match_blank_run s =
     (if 3 \<le> length (takeWhile (\<lambda>c. c = NL) s)
      then Some ([NL, NL], dropWhile (\<lambda>c. c = NL) s)
      else None)"

definition tidy :: "ustr list \<Rightarrow> ustr" where
  "tidy merged = strip_newlines (re_sub match_blank_run (join_lines (map rstrip merged)))"

subsection \<open>The normaliser\<close>

definition normalize_for_llm :: "ucd \<Rightarrow> ustr \<Rightarrow> ustr" where
  "normalize_for_llm U raw =
     (if raw = [] then raw
      else tidy (merge_rows (split_lines
             (normalize_currency U (fix_replacement_char U (html_breaks raw))))))"

section \<open>The contracts around the external generator\<close>

subsection \<open>Errors, JSON values and the outside world\<close>

text \<open>
  Every \<open>raise\<close> of the source is a value. \<open>CapabilityError\<close> stands for whatever the
  client library raises when the external call fails; it carries the library's message.
\<close>

datatype error =
    ValueError string
  | JSONDecodeError string
  | TypeError string
  | AttributeError string
  | CapabilityError string

text \<open>
  What \<open>json.loads\<close> returns. A float is kept as the text of its literal.
\<close>

datatype json =
    JNull
  | JBool bool
  | JInt int
  | JFloat ustr
  | JString ustr
  | JArray "json list"
  | JObject "(ustr \<times> json) list"

text \<open>A request to the text model, as \<open>generate_content\<close> receives it.\<close>

record text_request =
  api_key :: ustr
  model_id :: string
  prompt :: ustr
  response_mime_type :: string

text \<open>
  The response of the image model, as \<open>generate_image\<close> reads it:
  \<open>response.candidates\<close>, \<open>candidate.content\<close>, \<open>content.parts\<close>, \<open>part.inline_data\<close> and
  \<open>getattr(part.inline_data, "data", None)\<close>. The client library declares each of them
  optional: any of them may be \<open>None\<close>.
\<close>

type_synonym bytes = "nat list"

record blob =
  data :: "bytes option"

record part =
  inline_data :: "blob option"

record content =
  parts :: "part list option"

record candidate =
  content :: "content option"

record image_response =
  candidates :: "candidate list option"

record image_request =
  client_key :: ustr
  image_model :: string
  contents :: "ustr list"
  response_modalities :: "string list"

text \<open>
  The world outside the repository: the environment variable \<open>GEMINI_API_KEY\<close>, the two
  external capabilities (each returns its response or the message of the exception it
  raises) and the \<open>json\<close> module of the standard library (\<open>loads\<close> returns the value or
  the message of its \<open>JSONDecodeError\<close>).
\<close>

record world =
  env_GEMINI_API_KEY :: "ustr option"
  generate_content :: "text_request \<Rightarrow> string + ustr"
  generate_image_content :: "image_request \<Rightarrow> string + image_response"
  json_loads :: "ustr \<Rightarrow> string + json"
  json_dumps :: "json \<Rightarrow> ustr"

subsection \<open>The API key\<close>

text \<open>
  The three modules define the same \<open>_get_api_key\<close>; only the message differs
  (\<open>receive_json\<close> does not mention the \<open>.env\<close> file).
\<close>

definition get_api_key :: "string \<Rightarrow> world \<Rightarrow> error + ustr" where
  "get_api_key message W =
     (case env_GEMINI_API_KEY W of
        None \<Rightarrow> Inl (ValueError message)
      | Some key \<Rightarrow>
          if key = [] \<or> strip key = [] then Inl (ValueError message)
          else Inr (strip key))"

definition key_message_receive_json :: string where
  "key_message_receive_json = ''Gemini API key not set. Set GEMINI_API_KEY in your environment.''"

definition key_message_env :: string where
  "key_message_env = ''Gemini API key not set. Set GEMINI_API_KEY in your environment or .env.''"

subsection \<open>_strip_json_block\<close>

text \<open>
  \<open>receive_json\<close> and \<open>enrich_from_json\<close> hold the same function. The pattern is
  \<open>```(?:json)?\s*([\s\S]*?)\s*```\<close>: behind the opening fence and the optional tag the
  greedy \<open>\s*\<close> takes all the white space, the lazy group takes the shortest text behind
  which white space and a closing fence follow.
\<close>

definition FENCE :: ustr where
  "FENCE = [BACKTICK, BACKTICK, BACKTICK]"

definition starts_with :: "ustr \<Rightarrow> ustr \<Rightarrow> bool" where
  "starts_with p s \<longleftrightarrow> take (length p) s = p"

definition strip_prefix :: "ustr \<Rightarrow> ustr \<Rightarrow> ustr option" where
  "strip_prefix p s = (if starts_with p s then Some (drop (length p) s) else None)"

fun lazy_body :: "ustr \<Rightarrow> ustr option" where
  "lazy_body [] = None"
| "lazy_body (c # cs) =
     (if starts_with FENCE (dropWhile is_space (c # cs)) then Some []
      else map_option (Cons c) (lazy_body cs))"

definition fence_body :: "ustr \<Rightarrow> ustr option" where
  "fence_body r = lazy_body (dropWhile is_space r)"

definition match_fence :: "ustr \<Rightarrow> ustr option" where
  "match_fence s =
     (case strip_prefix FENCE s of
        None \<Rightarrow> None
      | Some r \<Rightarrow>
          (case strip_prefix (ascii ''json'') r of
             None \<Rightarrow> fence_body r
           | Some r' \<Rightarrow>
               (case fence_body r' of
                  None \<Rightarrow> fence_body r
                | Some g \<Rightarrow> Some g)))"

fun search_fence :: "ustr \<Rightarrow> ustr option" where
  "search_fence [] = None"
| "search_fence (c # cs) =
     (case match_fence (c # cs) of
        None \<Rightarrow> search_fence cs
      | Some g \<Rightarrow> Some g)"

definition strip_json_block :: "ustr \<Rightarrow> ustr" where
  "strip_json_block raw =
     (case search_fence (strip raw) of
        None \<Rightarrow> strip raw
      | Some g \<Rightarrow> strip g)"

subsection \<open>receive_json.extract_structured_data\<close>

text \<open>
  Each contract returns its result and the requests it has submitted to the external
  capability, in order. The instruction text does not steer the control flow and is a
  parameter.
\<close>

definition text_request_of :: "ustr \<Rightarrow> ustr \<Rightarrow> text_request" where
  "text_request_of key prompt_text =
     \<lparr>api_key = key, model_id = ''gemini-2.5-pro'', prompt = prompt_text,
      response_mime_type = ''application/json''\<rparr>"

definition empty_message :: string where
  "empty_message = ''Gemini returned an empty response.''"

definition extract_structured_data ::
  "world \<Rightarrow> ustr \<Rightarrow> ustr \<Rightarrow> (error + json) \<times> text_request list" where
  "extract_structured_data W STRUCTURED_PROMPT cleaned_text =
     (case get_api_key key_message_receive_json W of
        Inl e \<Rightarrow> (Inl e, [])
      | Inr key \<Rightarrow>
          let request = text_request_of key (STRUCTURED_PROMPT @ cleaned_text)
          in (case generate_content W request of
                Inl x \<Rightarrow> (Inl (CapabilityError x), [request])
              | Inr response_text \<Rightarrow>
                  if response_text = []
                  then (Inl (ValueError empty_message), [request])
                  else (case json_loads W (strip_json_block response_text) of
                          Inl e \<Rightarrow>
                            (Inl (ValueError (''Gemini response was not valid JSON: '' @ e)),
                             [request])
                        | Inr v \<Rightarrow> (Inr v, [request]))))"

subsection \<open>enrich_from_json.generate_summary_and_prompt\<close>

text \<open>
  \<open>key in out\<close> on what \<open>json.loads\<close> returned: the keys of a dict, the elements of a
  list, the substrings of a string; any other value is not iterable, and the test raises
  a \<open>TypeError\<close> that names the type.
\<close>

fun has_infix :: "ustr \<Rightarrow> ustr \<Rightarrow> bool" where
  "has_infix k [] = (k = [])"
| "has_infix k (c # cs) = (starts_with k (c # cs) \<or> has_infix k cs)"

fun py_in :: "ustr \<Rightarrow> json \<Rightarrow> error + bool" where
  "py_in k (JObject kvs) = Inr (k \<in> set (map fst kvs))"
| "py_in k (JArray xs) = Inr (JString k \<in> set xs)"
| "py_in k (JString s) = Inr (has_infix k s)"
| "py_in k JNull = Inl (TypeError ''argument of type 'NoneType' is not iterable'')"
| "py_in k (JBool b) = Inl (TypeError ''argument of type 'bool' is not iterable'')"
| "py_in k (JInt i) = Inl (TypeError ''argument of type 'int' is not iterable'')"
| "py_in k (JFloat f) = Inl (TypeError ''argument of type 'float' is not iterable'')"

definition keys_message :: string where
  "keys_message = ''Response must contain 'marketing_summary' and 'image_prompt'.''"

definition check_keys :: "json \<Rightarrow> error + json" where
  "check_keys out =
     (case py_in (ascii ''marketing_summary'') out of
        Inl e \<Rightarrow> Inl e
      | Inr has_summary \<Rightarrow>
          if \<not> has_summary then Inl (ValueError keys_message)
          else (case py_in (ascii ''image_prompt'') out of
                  Inl e \<Rightarrow> Inl e
                | Inr has_prompt \<Rightarrow>
                    if \<not> has_prompt then Inl (ValueError keys_message) else Inr out))"

definition generate_summary_and_prompt ::
  "world \<Rightarrow> ustr \<Rightarrow> json \<Rightarrow> (error + json) \<times> text_request list" where
  "generate_summary_and_prompt W ENRICH_PROMPT json_data =
     (case get_api_key key_message_env W of
        Inl e \<Rightarrow> (Inl e, [])
      | Inr key \<Rightarrow>
          let request = text_request_of key (ENRICH_PROMPT @ json_dumps W json_data)
          in (case generate_content W request of
                Inl x \<Rightarrow> (Inl (CapabilityError x), [request])
              | Inr response_text \<Rightarrow>
                  if response_text = []
                  then (Inl (ValueError empty_message), [request])
                  else (case json_loads W (strip_json_block response_text) of
                          Inl e \<Rightarrow> (Inl (JSONDecodeError e), [request])
                        | Inr out \<Rightarrow> (check_keys out, [request]))))"

subsection \<open>image_generation.generate_image\<close>

fun first_inline_data :: "part list \<Rightarrow> bytes option" where
  "first_inline_data [] = None"
| "first_inline_data (p # ps) =
     (case inline_data p of
        None \<Rightarrow> first_inline_data ps
      | Some b \<Rightarrow>
          (case data b of
             None \<Rightarrow> first_inline_data ps
           | Some raw \<Rightarrow> if raw \<noteq> [] then Some raw else first_inline_data ps))"

definition prompt_message :: string where
  "prompt_message = ''Prompt must be non-empty.''"

text \<open>
  \<open>response.candidates[0].content.parts\<close>, read in order to loop over it: when \<open>content\<close>
  is \<open>None\<close> the attribute access raises an \<open>AttributeError\<close>, when \<open>parts\<close> is \<open>None\<close>
  the \<open>for\<close> statement raises a \<open>TypeError\<close>.
\<close>

definition no_parts_message :: string where
  "no_parts_message = '''NoneType' object has no attribute 'parts'' @ [CHR 0x27]"

definition not_iterable_message :: string where
  "not_iterable_message = '''NoneType' object is not iterable''"

definition content_parts :: "candidate \<Rightarrow> error + part list" where
  "content_parts c =
     (case content c of
        None \<Rightarrow> Inl (AttributeError no_parts_message)
      | Some ct \<Rightarrow>
          (case parts ct of
             None \<Rightarrow> Inl (TypeError not_iterable_message)
           | Some ps \<Rightarrow> Inr ps))"

definition image_request_of :: "ustr \<Rightarrow> ustr \<Rightarrow> image_request" where
  "image_request_of key prompt_text =
     \<lparr>client_key = key, image_model = ''gemini-3-pro-image-preview'',
      contents = [prompt_text], response_modalities = [''IMAGE'']\<rparr>"

definition generate_image :: "world \<Rightarrow> ustr \<Rightarrow> (error + bytes option) \<times> image_request list" where
  "generate_image W prompt_text =
     (if prompt_text = [] \<or> strip prompt_text = []
      then (Inl (ValueError prompt_message), [])
      else (case get_api_key key_message_env W of
              Inl e \<Rightarrow> (Inl e, [])
            | Inr key \<Rightarrow>
                let request = image_request_of key (strip prompt_text)
                in (case generate_image_content W request of
                      Inl x \<Rightarrow> (Inl (CapabilityError x), [request])
                    | Inr response \<Rightarrow>
                        (case candidates response of
                           None \<Rightarrow> (Inr None, [request])
                         | Some [] \<Rightarrow> (Inr None, [request])
                         | Some (first # others) \<Rightarrow>
                             (case content_parts first of
                                Inl e \<Rightarrow> (Inl e, [request])
                              | Inr ps \<Rightarrow> (Inr (first_inline_data ps), [request]))))))"

section \<open>Notions used in the statements\<close>

text \<open>The configured key is absent: the variable is unset, empty or all white space.\<close>

definition key_absent :: "world \<Rightarrow> bool" where
  "key_absent W = (case env_GEMINI_API_KEY W of None \<Rightarrow> True | Some k \<Rightarrow> list_all is_space k)"

text \<open>A part that carries no inline binary data.\<close>

definition no_data :: "part \<Rightarrow> bool" where
  "no_data p =
     (case inline_data p of
        None \<Rightarrow> True
      | Some b \<Rightarrow> (case data b of None \<Rightarrow> True | Some raw \<Rightarrow> raw = []))"

text \<open>
  A world for the examples: the key is as given, the text model answers \<open>reply\<close> to
  every request, \<open>json.loads\<close> reads the sanitised reply as \<open>parsed\<close> and rejects any
  other text, and the image model answers \<open>img\<close>.
\<close>

definition fixed_world :: "ustr option \<Rightarrow> ustr \<Rightarrow> json \<Rightarrow> image_response \<Rightarrow> world" where
  "fixed_world key reply parsed img =
     \<lparr>env_GEMINI_API_KEY = key,
      generate_content = (\<lambda>request. Inr reply),
      generate_image_content = (\<lambda>request. Inr img),
      json_loads = (\<lambda>t. if t = strip_json_block reply then Inr parsed else Inl ''Expecting value''),
      json_dumps = (\<lambda>v. [])\<rparr>"





definition no_candidates :: image_response where
  "no_candidates = \<lparr>candidates = Some []\<rparr>"

text \<open>
  A response with one candidate that has no content, as the image model sends it when
  it declines a prompt.
\<close>

definition declined :: image_response where
  "declined = \<lparr>candidates = Some [\<lparr>content = None\<rparr>]\<rparr>"

text \<open>
  A candidate carries no inline binary data, and can be searched for it: it has a
  content with a list of parts, and no part holds data.
\<close>

definition no_inline_data :: "candidate \<Rightarrow> bool" where
  "no_inline_data c =
     (case content c of
        None \<Rightarrow> False
      | Some ct \<Rightarrow> (case parts ct of None \<Rightarrow> False | Some ps \<Rightarrow> list_all no_data ps))"

text \<open>
  A text wrapped in a fenced code block, tagged \<open>json\<close> or not: the fence, the tag, a
  line break, the text, a line break, the fence.
\<close>

definition wrap_in_fence :: "bool \<Rightarrow> ustr \<Rightarrow> ustr" where
  "wrap_in_fence tagged s =
     FENCE @ (if tagged then ascii ''json'' else []) @ [NL] @ s @ [NL] @ FENCE"

text \<open>
  An amount: one or more digits, and optionally a point or a comma and one or more
  digits.
\<close>

definition decimal_amount :: "ucd \<Rightarrow> ustr \<Rightarrow> bool" where
  "decimal_amount U s =
     (let d = takeWhile (is_digit U) s; r = dropWhile (is_digit U) s
      in d \<noteq> [] \<and>
         (r = [] \<or> ((hd r = 46 \<or> hd r = 44) \<and> tl r \<noteq> [] \<and> list_all (is_digit U) (tl r))))"

text \<open>
  The word character \<open>c\<close>, standing behind the text \<open>before\<close>, is the right end of a
  match of the word-pair pattern: the substitution does not leave it as it is. \<open>re.sub\<close>
  replaces matches that do not overlap, so it goes on behind \<open>c\<close>, and \<open>c\<close> cannot be the
  left end of the next match.
\<close>

definition ends_pair :: "ucd \<Rightarrow> ustr \<Rightarrow> nat \<Rightarrow> bool" where
  "ends_pair U before c \<longleftrightarrow>
     re_sub (match_word_pair U) (before @ [c]) \<noteq> re_sub (match_word_pair U) before @ [c]"

text \<open>Rule 3 changes a letter of the currency code to its upper case, and nothing else.\<close>

definition same_letter :: "nat \<Rightarrow> nat \<Rightarrow> bool" where
  "same_letter a b \<longleftrightarrow> a = b \<or> (a = 101 \<and> b = 69) \<or> (a = 117 \<and> b = 85) \<or> (a = 114 \<and> b = 82)"

section \<open>Notions used in the proofs\<close>

text \<open>
  The tokens of a text are its maximal runs of characters that are not white space.
  Rule 5 deletes white space only and leaves the tokens as they are.
\<close>

fun split_ws :: "ustr \<Rightarrow> ustr list" where
  "split_ws [] = [[]]"
| "split_ws (c # cs) =
     (if is_space c then [] # split_ws cs
      else (case split_ws cs of [] \<Rightarrow> [[c]] | l # ls \<Rightarrow> (c # l) # ls))"

definition tokens :: "ustr \<Rightarrow> ustr list" where
  "tokens z = filter (\<lambda>w. w \<noteq> []) (split_ws z)"

text \<open>
  The runs of a text between separators: \<open>split_by\<close> is \<open>split_ws\<close> for any class of
  separators. The words of a text are its runs between characters that are not word
  characters.
\<close>

fun split_by :: "(nat \<Rightarrow> bool) \<Rightarrow> ustr \<Rightarrow> ustr list" where
  "split_by P [] = [[]]"
| "split_by P (c # cs) =
     (if P c then [] # split_by P cs
      else (case split_by P cs of [] \<Rightarrow> [[c]] | l # ls \<Rightarrow> (c # l) # ls))"

definition runs :: "(nat \<Rightarrow> bool) \<Rightarrow> ustr \<Rightarrow> ustr list" where
  "runs P z = filter (\<lambda>w. w \<noteq> []) (split_by P z)"


text \<open>
  The text is a word character, white space, a replacement character and white space:
  a match of the word-pair pattern that lacks only its second word character.
\<close>

definition pending_pair :: "ucd \<Rightarrow> ustr \<Rightarrow> bool" where
  "pending_pair U s =
     (case s of
        [] \<Rightarrow> False
      | w # q \<Rightarrow>
          is_word U w \<and>
          (case dropWhile is_space q of
             [] \<Rightarrow> False
           | y # r2 \<Rightarrow> y = REPLACEMENT_CHAR \<and> dropWhile is_space r2 = []))"

section \<open>Properties\<close>

lemmas eval_defs = normalize_for_llm_def html_breaks_def fix_replacement_char_def
  normalize_currency_def merge_rows_def merge_step_def is_continuation_def tidy_def
  match_blank_run_def match_amount_euro_def euro_tail_def decimal_part_def boundary_after_def
  boundary_before_def eur_letters_def match_marker_def match_digit_marker_def
  match_word_pair_def close_tag_def strip_def rstrip_def strip_newlines_def lstrip_by_def
  rstrip_by_def endswith_def startswith_def is_space_def is_digit_def is_word_def
  symbol_or_space_def ascii_only_def ascii_def


subsection \<open>Stripping white space\<close>

lemma rstrip_by_Nil_iff: "rstrip_by P s = [] \<longleftrightarrow> list_all P s"
  by (simp add: rstrip_by_def dropWhile_eq_Nil_conv list_all_iff)

lemma rstrip_by_all: "list_all P (rstrip_by P s) \<longleftrightarrow> list_all P s"
proof
  assume a: "list_all P (rstrip_by P s)"
  show "list_all P s"
  proof (rule ccontr)
    assume n: "\<not> list_all P s"
    then have ne: "dropWhile P (rev s) \<noteq> []"
      by (simp add: dropWhile_eq_Nil_conv list_all_iff)
    then have "\<not> P (hd (dropWhile P (rev s)))"
      by (rule hd_dropWhile)
    moreover have "hd (dropWhile P (rev s)) \<in> set (rstrip_by P s)"
      using ne by (simp add: rstrip_by_def)
    ultimately show False using a by (auto simp: list_all_iff)
  qed
next
  assume "list_all P s"
  then have "rstrip_by P s = []" by (simp add: rstrip_by_Nil_iff)
  then show "list_all P (rstrip_by P s)" by simp
qed

lemma strip_Nil_iff: "strip s = [] \<longleftrightarrow> list_all is_space s"
proof -
  have "strip s = [] \<longleftrightarrow> list_all is_space (rstrip_by is_space s)"
    by (simp add: strip_def lstrip_by_def dropWhile_eq_Nil_conv list_all_iff)
  then show ?thesis by (simp add: rstrip_by_all)
qed

lemma blank_iff: "(s = [] \<or> strip s = []) \<longleftrightarrow> list_all is_space s"
  by (auto simp: strip_Nil_iff)

subsection \<open>The API key and the prompt are checked before any request\<close>

lemma get_api_key_absent: "key_absent W \<Longrightarrow> get_api_key m W = Inl (ValueError m)"
  by (auto simp: key_absent_def get_api_key_def strip_Nil_iff split: option.splits)

lemma get_api_key_present:
  "env_GEMINI_API_KEY W = Some k \<Longrightarrow> \<not> list_all is_space k \<Longrightarrow> get_api_key m W = Inr (strip k)"
  by (auto simp: get_api_key_def strip_Nil_iff)

text \<open>
  C9: a prompt that is empty or all white space makes \<open>generate_image\<close> fail with the
  prompt error and no request is submitted; for any other prompt the result is not the
  prompt error.
\<close>

theorem generate_image_prompt_error:
  "(list_all is_space p \<longrightarrow> generate_image W p = (Inl (ValueError prompt_message), [])) \<and>
   (\<not> list_all is_space p \<longrightarrow> fst (generate_image W p) \<noteq> Inl (ValueError prompt_message))"
  by (auto simp: generate_image_def blank_iff get_api_key_def prompt_message_def key_message_env_def
      content_parts_def Let_def split: option.splits sum.splits list.splits)

theorem generate_image_prompt_error_witness:
  "list_all is_space (ascii ''  '') \<and>
   generate_image (fixed_world None [] JNull no_candidates) (ascii ''  '') =
     (Inl (ValueError prompt_message), []) \<and>
   \<not> list_all is_space (ascii ''a cat'') \<and>
   fst (generate_image (fixed_world None [] JNull no_candidates) (ascii ''a cat'')) \<noteq>
     Inl (ValueError prompt_message)"
  using generate_image_prompt_error [of "ascii ''  ''" "fixed_world None [] JNull no_candidates"]
    generate_image_prompt_error [of "ascii ''a cat''" "fixed_world None [] JNull no_candidates"]
  by (simp add: ascii_def is_space_def)

text \<open>
  C10: when the configured API key is absent or all white space, each of the three
  contracts fails with a \<open>ValueError\<close> and has submitted no request. (\<open>generate_image\<close>
  checks the prompt first, so a blank prompt is reported instead of the key.)
\<close>

theorem api_key_checked_first:
  assumes "key_absent W"
  shows "extract_structured_data W STRUCTURED_PROMPT cleaned_text =
           (Inl (ValueError key_message_receive_json), []) \<and>
         generate_summary_and_prompt W ENRICH_PROMPT json_data =
           (Inl (ValueError key_message_env), []) \<and>
         generate_image W p =
           (Inl (ValueError (if list_all is_space p then prompt_message else key_message_env)), [])"
  using assms
  by (simp add: extract_structured_data_def generate_summary_and_prompt_def generate_image_def
      get_api_key_absent blank_iff)

theorem api_key_checked_first_witness:
  "key_absent (fixed_world (Some (ascii ''  '')) (ascii ''{}'') (JObject []) no_candidates) \<and>
   extract_structured_data (fixed_world (Some (ascii ''  '')) (ascii ''{}'') (JObject []) no_candidates)
       (ascii ''Extract: '') (ascii ''Paloma 15 EUR'') =
     (Inl (ValueError key_message_receive_json), []) \<and>
   generate_summary_and_prompt (fixed_world (Some (ascii ''  '')) (ascii ''{}'') (JObject []) no_candidates)
       (ascii ''Enrich: '') (JObject []) =
     (Inl (ValueError key_message_env), []) \<and>
   generate_image (fixed_world (Some (ascii ''  '')) (ascii ''{}'') (JObject []) no_candidates)
       (ascii ''a cat'') =
     (Inl (ValueError key_message_env), [])"
proof -
  have k: "key_absent (fixed_world (Some (ascii ''  '')) (ascii ''{}'') (JObject []) no_candidates)"
    by (simp add: key_absent_def fixed_world_def ascii_def is_space_def)
  have p: "\<not> list_all is_space (ascii ''a cat'')"
    by (simp add: ascii_def is_space_def)
  show ?thesis
    using k p api_key_checked_first [OF k, of "ascii ''Extract: ''" "ascii ''Paloma 15 EUR''"
        "ascii ''Enrich: ''" "JObject []" "ascii ''a cat''"]
    by simp
qed

subsection \<open>The image response\<close>

lemma first_inline_data_none: "list_all no_data ps \<Longrightarrow> first_inline_data ps = None"
  by (induction ps) (auto simp: no_data_def split: option.splits)

text \<open>
  With a usable prompt and key, a response that has no candidates, or whose first
  candidate has a content with a list of parts none of which carries inline binary data,
  makes \<open>generate_image\<close> return \<open>None\<close>, not an error.
\<close>

lemma generate_image_none:
  assumes "\<not> list_all is_space p"
    and "env_GEMINI_API_KEY W = Some k" and "\<not> list_all is_space k"
    and "generate_image_content W (image_request_of (strip k) (strip p)) = Inr response"
    and "candidates response = None \<or> candidates response = Some [] \<or>
         (\<exists>c cs. candidates response = Some (c # cs) \<and> no_inline_data c)"
  shows "generate_image W p = (Inr None, [image_request_of (strip k) (strip p)])"
  using assms
  by (auto simp: generate_image_def blank_iff get_api_key_present first_inline_data_none
      content_parts_def no_inline_data_def Let_def split: list.splits option.splits)

text \<open>
  C8: the claim says that a response whose candidates carry no inline binary data gives
  \<open>None\<close> and no error, and the docstring of \<open>generate_image\<close> says the same (``Returns
  None if the model produced no image (e.g. safety block)''). The code reads
  \<open>response.candidates[0].content.parts\<close> without a guard. A response with one candidate
  that has no content carries no inline binary data, and \<open>generate_image\<close> raises an
  \<open>AttributeError\<close> for it; for a content without a list of parts it raises a
  \<open>TypeError\<close>. The request has been submitted in both cases.
\<close>

theorem generate_image_declined:
  "generate_image (fixed_world (Some (ascii ''k'')) [] JNull declined) (ascii ''a cat'') =
     (Inl (AttributeError no_parts_message), [image_request_of (ascii ''k'') (ascii ''a cat'')]) \<and>
   generate_image
     (fixed_world (Some (ascii ''k'')) [] JNull
        \<lparr>candidates = Some [\<lparr>content = Some \<lparr>parts = None\<rparr>\<rparr>]\<rparr>)
     (ascii ''a cat'') =
     (Inl (TypeError not_iterable_message), [image_request_of (ascii ''k'') (ascii ''a cat'')])"
proof -
  have s: "strip (ascii ''k'') = ascii ''k''" "strip (ascii ''a cat'') = ascii ''a cat''"
    by (simp_all add: eval_defs)
  have n: "\<not> list_all is_space (ascii ''k'')" "\<not> list_all is_space (ascii ''a cat'')"
    by (simp_all add: ascii_def is_space_def)
  have e: "ascii ''a cat'' \<noteq> []" by (simp add: ascii_def)
  show ?thesis
    using n e
    by (simp add: generate_image_def get_api_key_present [where k = "ascii ''k''"] s
        fixed_world_def declined_def content_parts_def Let_def)
qed

subsection \<open>What the two text contracts return\<close>

lemma extract_returns_parsed_value:
  assumes "env_GEMINI_API_KEY W = Some k" and "\<not> list_all is_space k"
    and "generate_content W (text_request_of (strip k) (STRUCTURED_PROMPT @ cleaned_text)) = Inr r"
    and "r \<noteq> []"
    and "json_loads W (strip_json_block r) = Inr v"
  shows "extract_structured_data W STRUCTURED_PROMPT cleaned_text =
           (Inr v, [text_request_of (strip k) (STRUCTURED_PROMPT @ cleaned_text)])"
  using assms by (simp add: extract_structured_data_def get_api_key_present Let_def)

text \<open>
  C2: \<open>extract_structured_data\<close> returns whatever \<open>json.loads\<close> made of the sanitised
  reply. When the model answers \<open>[1, 2]\<close> the contract returns that array as its
  result: nothing checks that the value is an object.
\<close>

theorem extract_returns_array:
  "fst (extract_structured_data
          (fixed_world (Some (ascii ''k'')) (ascii ''[1, 2]'') (JArray [JInt 1, JInt 2]) no_candidates)
          STRUCTURED_PROMPT cleaned_text) = Inr (JArray [JInt 1, JInt 2])"
proof -
  have "\<not> list_all is_space (ascii ''k'')" "ascii ''[1, 2]'' \<noteq> []"
    by (simp_all add: ascii_def is_space_def)
  then show ?thesis
    by (simp add: extract_structured_data_def get_api_key_present [where k = "ascii ''k''"]
        fixed_world_def Let_def)
qed




subsection \<open>Fenced replies\<close>

lemma not_space_backtick [simp]: "\<not> is_space BACKTICK"
  by (simp add: is_space_def)

lemma space_NL [simp]: "is_space NL"
  by (simp add: is_space_def)

lemma starts_with_iff: "starts_with k s \<longleftrightarrow> (\<exists>q. s = k @ q)"
  unfolding starts_with_def
  by (metis append_eq_conv_conj append_take_drop_id)

lemma has_infix_iff: "has_infix k s \<longleftrightarrow> (\<exists>p q. s = p @ k @ q)"
proof (induction s)
  case Nil
  then show ?case by auto
next
  case (Cons c cs)
  have "(\<exists>p q. c # cs = p @ k @ q) \<longleftrightarrow> (\<exists>q. c # cs = k @ q) \<or> (\<exists>p q. cs = p @ k @ q)"
  proof
    assume "\<exists>p q. c # cs = p @ k @ q"
    then obtain p q where e: "c # cs = p @ k @ q" by blast
    show "(\<exists>q. c # cs = k @ q) \<or> (\<exists>p q. cs = p @ k @ q)"
    proof (cases p)
      case Nil
      with e show ?thesis by auto
    next
      case (Cons a p')
      with e have "cs = p' @ k @ q" by simp
      then show ?thesis by blast
    qed
  next
    assume "(\<exists>q. c # cs = k @ q) \<or> (\<exists>p q. cs = p @ k @ q)"
    then show "\<exists>p q. c # cs = p @ k @ q"
    proof
      assume "\<exists>q. c # cs = k @ q"
      then obtain q where "c # cs = [] @ k @ q" by auto
      then show ?thesis by blast
    next
      assume "\<exists>p q. cs = p @ k @ q"
      then obtain p q where "c # cs = (c # p) @ k @ q" by auto
      then show ?thesis by blast
    qed
  qed
  with Cons show ?case by (simp add: starts_with_iff)
qed

lemma no_infix_suffix: "\<not> has_infix k (a @ b) \<Longrightarrow> \<not> has_infix k b"
  unfolding has_infix_iff by (metis append.assoc)

lemma no_infix_prefix: "\<not> has_infix k (a @ b) \<Longrightarrow> \<not> has_infix k a"
  unfolding has_infix_iff by (metis append.assoc)

lemma no_infix_dropWhile: "\<not> has_infix k s \<Longrightarrow> \<not> has_infix k (dropWhile P s)"
  using no_infix_suffix [of k "takeWhile P s" "dropWhile P s"] by simp

lemma rstrip_by_decomp: "rstrip_by P s @ rev (takeWhile P (rev s)) = s"
proof -
  have "rev (takeWhile P (rev s) @ dropWhile P (rev s)) = s" by simp
  then show ?thesis unfolding rstrip_by_def rev_append .
qed

lemma no_infix_rstrip_by: "\<not> has_infix k s \<Longrightarrow> \<not> has_infix k (rstrip_by P s)"
  using no_infix_prefix [of k "rstrip_by P s" "rev (takeWhile P (rev s))"]
  by (simp add: rstrip_by_decomp)

lemma no_infix_strip: "\<not> has_infix k s \<Longrightarrow> \<not> has_infix k (strip s)"
  by (simp add: strip_def lstrip_by_def no_infix_dropWhile no_infix_rstrip_by)

lemma no_infix_no_start: "\<not> has_infix k s \<Longrightarrow> \<not> starts_with k s"
  by (cases s) (auto simp: starts_with_def)

lemma search_fence_none: "\<not> has_infix FENCE s \<Longrightarrow> search_fence s = None"
  by (induction s) (auto simp: match_fence_def strip_prefix_def)

lemma strip_json_block_no_fence: "\<not> has_infix FENCE s \<Longrightarrow> strip_json_block s = strip s"
  by (simp add: strip_json_block_def search_fence_none no_infix_strip)

lemma rstrip_by_Cons:
  "rstrip_by P (c # t) = (if list_all P (c # t) then [] else c # rstrip_by P t)"
  by (auto simp: rstrip_by_def dropWhile_append list_all_iff)

lemma rstrip_by_append:
  "rstrip_by P (a @ d) = (if list_all P d then rstrip_by P a else a @ rstrip_by P d)"
  by (auto simp: rstrip_by_def dropWhile_append list_all_iff)

lemma rstrip_by_idem: "rstrip_by P (rstrip_by P s) = rstrip_by P s"
  by (simp add: rstrip_by_def)

lemma dropWhile_rstrip_by: "dropWhile P (rstrip_by P s) = rstrip_by P (dropWhile P s)"
proof (induction s)
  case Nil
  then show ?case by (simp add: rstrip_by_def)
next
  case (Cons c t)
  show ?case
  proof (cases "P c")
    case True
    show ?thesis
    proof (cases "list_all P t")
      case True
      then have "rstrip_by P (dropWhile P t) = []"
        by (auto simp: rstrip_by_Nil_iff list_all_iff dest: set_dropWhileD)
      with True \<open>P c\<close> show ?thesis by (simp add: rstrip_by_Cons)
    next
      case False
      with \<open>P c\<close> Cons show ?thesis by (simp add: rstrip_by_Cons)
    qed
  next
    case False
    then show ?thesis by (auto simp: rstrip_by_Cons)
  qed
qed

lemma strip_rstrip_lstrip: "strip (rstrip_by is_space (dropWhile is_space s)) = strip s"
proof -
  have "strip (rstrip_by is_space (dropWhile is_space s))
      = dropWhile is_space (rstrip_by is_space (dropWhile is_space s))"
    by (simp add: strip_def lstrip_by_def rstrip_by_idem)
  also have "\<dots> = dropWhile is_space (dropWhile is_space (rstrip_by is_space s))"
    by (simp add: dropWhile_rstrip_by)
  also have "\<dots> = strip s"
    by (simp add: strip_def lstrip_by_def)
  finally show ?thesis .
qed

lemma starts_fence_Cons:
  "starts_with FENCE (c # t) \<longleftrightarrow> c = BACKTICK \<and> (\<exists>r. t = BACKTICK # BACKTICK # r)"
  by (auto simp: starts_with_iff FENCE_def)

lemma fence_not_across_newline:
  "d \<noteq> [] \<Longrightarrow> \<not> starts_with FENCE d \<Longrightarrow> \<not> starts_with FENCE (d @ NL # w)"
proof -
  assume ne: "d \<noteq> []" and ns: "\<not> starts_with FENCE d"
  obtain x d1 where d: "d = x # d1" using ne by (cases d) auto
  show ?thesis
  proof (cases d1)
    case Nil
    with d show ?thesis by (simp add: starts_fence_Cons)
  next
    case (Cons y d2)
    show ?thesis
    proof (cases d2)
      case Nil
      with d Cons show ?thesis by (simp add: starts_fence_Cons)
    next
      case (Cons z d3)
      with d \<open>d1 = y # d2\<close> ns show ?thesis by (simp add: starts_fence_Cons)
    qed
  qed
qed

lemma dropWhile_space_before_fence:
  "dropWhile is_space (u @ NL # FENCE) =
     (if list_all is_space u then FENCE else dropWhile is_space u @ NL # FENCE)"
  by (auto simp: dropWhile_append list_all_iff FENCE_def)

lemma lazy_body_closing:
  "\<not> has_infix FENCE t \<Longrightarrow> lazy_body (t @ NL # FENCE) = Some (rstrip_by is_space t)"
proof (induction t)
  case Nil
  have "starts_with FENCE (dropWhile is_space (NL # FENCE))"
    by (simp add: FENCE_def starts_with_def)
  then show ?case by (simp add: rstrip_by_def)
next
  case (Cons c t)
  from Cons.prems have nt: "\<not> has_infix FENCE t" by simp
  show ?case
  proof (cases "list_all is_space (c # t)")
    case True
    then have "dropWhile is_space ((c # t) @ NL # FENCE) = FENCE"
      by (simp only: dropWhile_space_before_fence if_True)
    then have "starts_with FENCE (dropWhile is_space ((c # t) @ NL # FENCE))"
      by (simp add: starts_with_def)
    with True show ?thesis by (simp add: rstrip_by_Cons)
  next
    case False
    then have dw: "dropWhile is_space ((c # t) @ NL # FENCE) = dropWhile is_space (c # t) @ NL # FENCE"
      by (simp only: dropWhile_space_before_fence if_False)
    have ne: "dropWhile is_space (c # t) \<noteq> []"
      using False by (simp add: dropWhile_eq_Nil_conv list_all_iff)
    have "\<not> starts_with FENCE (dropWhile is_space (c # t))"
      using Cons.prems no_infix_dropWhile no_infix_no_start by blast
    with ne have "\<not> starts_with FENCE (dropWhile is_space (c # t) @ NL # FENCE)"
      by (rule fence_not_across_newline)
    with dw have "\<not> starts_with FENCE (dropWhile is_space ((c # t) @ NL # FENCE))" by simp
    then have "lazy_body ((c # t) @ NL # FENCE) = map_option (Cons c) (lazy_body (t @ NL # FENCE))"
      by simp
    with Cons.IH [OF nt] False show ?thesis by (simp add: rstrip_by_Cons)
  qed
qed

lemma fence_body_wrapped:
  assumes "\<not> has_infix FENCE s"
  shows "fence_body (NL # s @ NL # FENCE) = Some (rstrip_by is_space (dropWhile is_space s))"
proof (cases "list_all is_space s")
  case True
  then have "dropWhile is_space (s @ NL # FENCE) = FENCE"
    by (simp only: dropWhile_space_before_fence if_True)
  then have "fence_body (NL # s @ NL # FENCE) = lazy_body FENCE"
    by (simp add: fence_body_def)
  moreover have "lazy_body FENCE = Some []"
    by (simp add: FENCE_def starts_with_def)
  moreover have "rstrip_by is_space (dropWhile is_space s) = []"
    using True by (auto simp: rstrip_by_Nil_iff list_all_iff dest: set_dropWhileD)
  ultimately show ?thesis by simp
next
  case False
  then have "dropWhile is_space (s @ NL # FENCE) = dropWhile is_space s @ NL # FENCE"
    by (simp only: dropWhile_space_before_fence if_False)
  then have "fence_body (NL # s @ NL # FENCE) = lazy_body (dropWhile is_space s @ NL # FENCE)"
    by (simp add: fence_body_def)
  moreover have "\<not> has_infix FENCE (dropWhile is_space s)"
    using assms by (rule no_infix_dropWhile)
  ultimately show ?thesis by (simp add: lazy_body_closing)
qed

lemma match_fence_wrapped:
  assumes "\<not> has_infix FENCE s"
  shows "match_fence (wrap_in_fence tagged s) = Some (rstrip_by is_space (dropWhile is_space s))"
proof (cases tagged)
  case True
  have "strip_prefix FENCE (wrap_in_fence True s) = Some (ascii ''json'' @ NL # s @ NL # FENCE)"
    by (simp add: strip_prefix_def starts_with_def wrap_in_fence_def)
  moreover have "strip_prefix (ascii ''json'') (ascii ''json'' @ NL # s @ NL # FENCE) = Some (NL # s @ NL # FENCE)"
    by (simp add: strip_prefix_def starts_with_def)
  ultimately show ?thesis
    using True fence_body_wrapped [OF assms] by (simp add: match_fence_def)
next
  case False
  have "strip_prefix FENCE (wrap_in_fence False s) = Some (NL # s @ NL # FENCE)"
    by (simp add: strip_prefix_def starts_with_def wrap_in_fence_def)
  moreover have "strip_prefix (ascii ''json'') (NL # s @ NL # FENCE) = None"
    by (simp add: strip_prefix_def starts_with_def ascii_def)
  ultimately show ?thesis
    using False fence_body_wrapped [OF assms] by (simp add: match_fence_def)
qed

lemma strip_wrapped: "strip (wrap_in_fence tagged s) = wrap_in_fence tagged s"
  by (simp add: strip_def lstrip_by_def rstrip_by_def wrap_in_fence_def FENCE_def)

lemma search_fence_wrapped:
  assumes "\<not> has_infix FENCE s"
  shows "search_fence (wrap_in_fence tagged s) = Some (rstrip_by is_space (dropWhile is_space s))"
proof -
  obtain r where "wrap_in_fence tagged s = BACKTICK # r"
    by (simp add: wrap_in_fence_def FENCE_def)
  then show ?thesis using match_fence_wrapped [OF assms, of tagged] by simp
qed

text \<open>
  C5, as the code has it: for every text \<open>s\<close> that holds no fence (no three consecutive
  backticks), \<open>_strip_json_block\<close> returns the same for \<open>s\<close> and for \<open>s\<close> wrapped in a
  fenced block, tagged \<open>json\<close> or not, and that result is \<open>s\<close> trimmed.
\<close>

theorem strip_json_block_unwraps:
  assumes "\<not> has_infix FENCE s"
  shows "strip_json_block (wrap_in_fence tagged s) = strip_json_block s \<and>
         strip_json_block s = strip s"
  using assms
  by (simp add: strip_json_block_def [of "wrap_in_fence tagged s"] strip_wrapped
      search_fence_wrapped strip_rstrip_lstrip strip_json_block_no_fence)

lemmas fence_eval = strip_json_block_def match_fence_def fence_body_def strip_prefix_def
  starts_with_def FENCE_def wrap_in_fence_def strip_def lstrip_by_def rstrip_by_def is_space_def
  ascii_def

theorem strip_json_block_unwraps_witness:
  "\<not> has_infix FENCE (ascii '' {}'') \<and>
   strip_json_block (wrap_in_fence True (ascii '' {}'')) = ascii ''{}'' \<and>
   strip_json_block (ascii '' {}'') = ascii ''{}''"
proof -
  have n: "\<not> has_infix FENCE (ascii '' {}'')" by (simp add: fence_eval)
  have s: "strip (ascii '' {}'') = ascii ''{}''" by (simp add: fence_eval)
  show ?thesis using n s strip_json_block_unwraps [OF n, of True] by simp
qed

text \<open>
  For an interior that holds a fence itself the two results differ: the lazy group ends
  at the first closing fence, which is then the interior's own opening fence.
\<close>

theorem strip_json_block_nested_fence:
  "strip_json_block (ascii ''```{}```'') = ascii ''{}'' \<and>
   strip_json_block (wrap_in_fence True (ascii ''```{}```'')) = [] \<and>
   strip_json_block (wrap_in_fence True (ascii ''```{}```'')) \<noteq> strip_json_block (ascii ''```{}```'')"
  by (simp add: fence_eval)

subsection \<open>Rewriting currency\<close>

subsection \<open>Character classes\<close>

lemma digit_facts:
  assumes "is_digit U c"
  shows "\<not> is_space c" "c \<noteq> REPLACEMENT_CHAR" "c \<noteq> EURO" "c \<noteq> 60" "c \<noteq> NL" "c \<noteq> PIPE"
    "c \<noteq> 101" "c \<noteq> 69" "c \<noteq> 46" "c \<noteq> 44" "is_word U c"
  using assms
  by (auto simp: is_digit_def is_word_def is_space_def symbol_or_space_def split: if_splits)

lemma word_facts:
  assumes "is_word U c"
  shows "\<not> is_space c" "c \<noteq> REPLACEMENT_CHAR" "c \<noteq> EURO" "c \<noteq> 60" "c \<noteq> NL" "c \<noteq> PIPE"
    "c \<noteq> EM_DASH" "c \<noteq> SPACE"
  using assms
  by (auto simp: is_word_def is_space_def symbol_or_space_def split: if_splits)

lemma space_facts:
  assumes "is_space c"
  shows "c \<noteq> REPLACEMENT_CHAR" "c \<noteq> EURO" "c \<noteq> 60" "c \<noteq> PIPE" "c \<noteq> 101" "c \<noteq> 69"
    "c \<noteq> 46" "c \<noteq> 44" "\<not> is_digit U c" "\<not> is_word U c" "c \<noteq> 47" "c \<noteq> 62"
  using assms
  by (auto simp: is_digit_def is_word_def is_space_def symbol_or_space_def split: if_splits)

subsection \<open>Rules that find nothing to rewrite\<close>

lemma re_sub_noop: "(\<And>s. set s \<subseteq> set x \<Longrightarrow> m s = None) \<Longrightarrow> re_sub m x = x"
proof (induction x)
  case Nil
  then show ?case by simp
next
  case (Cons c cs)
  have "m (c # cs) = None" by (rule Cons.prems) simp
  moreover have "re_sub m cs = cs"
    by (rule Cons.IH, rule Cons.prems) auto
  ultimately show ?case by simp
qed

lemma match_br_needs_lt: "60 \<notin> set s \<Longrightarrow> match_br s = None"
  by (cases s rule: match_br.cases) auto

lemma html_breaks_noop: "60 \<notin> set s \<Longrightarrow> html_breaks s = s"
  unfolding html_breaks_def by (rule re_sub_noop) (auto intro: match_br_needs_lt)

lemma dropWhile_Cons_mem: "dropWhile P r = x # t \<Longrightarrow> x \<in> set r"
  by (metis list.set_intros(1) set_dropWhileD)

lemma match_word_pair_needs_marker: "REPLACEMENT_CHAR \<notin> set s \<Longrightarrow> match_word_pair U s = None"
  by (auto simp: match_word_pair_def split: list.splits dest: dropWhile_Cons_mem)

lemma match_digit_marker_needs_marker: "REPLACEMENT_CHAR \<notin> set s \<Longrightarrow> match_digit_marker U s = None"
  by (auto simp: match_digit_marker_def split: list.splits dest: dropWhile_Cons_mem)

lemma match_marker_needs_marker: "REPLACEMENT_CHAR \<notin> set s \<Longrightarrow> match_marker s = None"
  by (auto simp: match_marker_def split: list.splits dest: dropWhile_Cons_mem)

lemma fix_replacement_char_noop:
  assumes "REPLACEMENT_CHAR \<notin> set s"
  shows "fix_replacement_char U s = s"
proof -
  have 1: "re_sub (match_word_pair U) s = s"
    using assms by (intro re_sub_noop match_word_pair_needs_marker) auto
  have 2: "re_sub (match_digit_marker U) s = s"
    using assms by (intro re_sub_noop match_digit_marker_needs_marker) auto
  have 3: "re_sub match_marker s = s"
    using assms by (intro re_sub_noop match_marker_needs_marker) auto
  show ?thesis by (simp add: fix_replacement_char_def 1 2 3)
qed

lemma upper_eur_skip:
  "\<not> (a = 101 \<or> a = 69) \<Longrightarrow> upper_eur U prev (a # s) = a # upper_eur U (Some a) s"
proof (cases s)
  case Nil
  then show ?thesis by simp
next
  case (Cons b s1)
  assume n: "\<not> (a = 101 \<or> a = 69)"
  show ?thesis
  proof (cases s1)
    case Nil
    with Cons show ?thesis by simp
  next
    case (Cons c r)
    with \<open>s = b # s1\<close> n show ?thesis by (simp add: eur_letters_def)
  qed
qed

lemma upper_eur_noop_e: "101 \<notin> set s \<Longrightarrow> 69 \<notin> set s \<Longrightarrow> upper_eur U prev s = s"
  by (induction s arbitrary: prev) (auto simp: upper_eur_skip)

lemma euro_tail_needs_euro: "EURO \<notin> set s \<Longrightarrow> euro_tail s = None"
  by (auto simp: euro_tail_def split: list.splits dest: dropWhile_Cons_mem)

lemma decimal_part_rest: "decimal_part U r = Some (frac, r') \<Longrightarrow> set r' \<subseteq> set r"
proof -
  assume a: "decimal_part U r = Some (frac, r')"
  then obtain sep r1 where r: "r = sep # r1" and "r' = dropWhile (is_digit U) r1"
    by (auto simp: decimal_part_def split: list.splits if_splits)
  then have "set r' \<subseteq> set r1" by (auto dest: set_dropWhileD)
  with r show ?thesis by auto
qed

lemma match_amount_euro_needs_euro: "EURO \<notin> set s \<Longrightarrow> match_amount_euro U s = None"
proof -
  assume n: "EURO \<notin> set s"
  have a: "euro_tail (dropWhile (is_digit U) s) = None"
    using n by (intro euro_tail_needs_euro) (auto dest: set_dropWhileD)
  have b: "\<And>frac r'. decimal_part U (dropWhile (is_digit U) s) = Some (frac, r') \<Longrightarrow> euro_tail r' = None"
  proof -
    fix frac r'
    assume "decimal_part U (dropWhile (is_digit U) s) = Some (frac, r')"
    then have "set r' \<subseteq> set (dropWhile (is_digit U) s)" by (rule decimal_part_rest)
    then have "set r' \<subseteq> set s" by (auto dest: set_dropWhileD)
    with n show "euro_tail r' = None" by (intro euro_tail_needs_euro) auto
  qed
  show ?thesis
    using a b by (auto simp: match_amount_euro_def Let_def split: option.splits)
qed

lemma amount_euro_noop: "EURO \<notin> set s \<Longrightarrow> re_sub (match_amount_euro U) s = s"
  by (rule re_sub_noop) (auto intro: match_amount_euro_needs_euro)


subsection \<open>A text of one line\<close>

lemma split_lines_one: "NL \<notin> set t \<Longrightarrow> split_lines t = [t]"
  by (induction t) auto

lemma merge_rows_one: "merge_rows [t] = [t]"
  by (simp add: merge_rows_def merge_step_def)

lemma dropWhile_unchanged: "(\<And>c. c \<in> set x \<Longrightarrow> \<not> P c) \<Longrightarrow> dropWhile P x = x"
  by (cases x) auto

lemma set_rstrip_by: "set (rstrip_by P s) \<subseteq> set s"
  by (auto simp: rstrip_by_def dest: set_dropWhileD)

lemma set_strip: "set (strip s) \<subseteq> set s"
  using set_rstrip_by [of is_space s] by (auto simp: strip_def lstrip_by_def dest: set_dropWhileD)

lemma rstrip_by_unchanged: "(\<And>c. c \<in> set x \<Longrightarrow> \<not> P c) \<Longrightarrow> rstrip_by P x = x"
proof -
  assume "\<And>c. c \<in> set x \<Longrightarrow> \<not> P c"
  then have "dropWhile P (rev x) = rev x" by (intro dropWhile_unchanged) auto
  then show ?thesis by (simp add: rstrip_by_def)
qed

lemma rstrip_by_snoc: "\<not> P c \<Longrightarrow> rstrip_by P (x @ [c]) = x @ [c]"
  by (simp add: rstrip_by_def)

lemma match_blank_run_needs_nl: "NL \<notin> set s \<Longrightarrow> match_blank_run s = None"
  by (cases s) (auto simp: match_blank_run_def)

lemma blank_run_noop: "NL \<notin> set s \<Longrightarrow> re_sub match_blank_run s = s"
  by (rule re_sub_noop) (auto intro: match_blank_run_needs_nl)

lemma strip_newlines_noop: "NL \<notin> set s \<Longrightarrow> strip_newlines s = s"
proof -
  assume n: "NL \<notin> set s"
  then have "rstrip_by (\<lambda>c. c = NL) s = s" by (intro rstrip_by_unchanged) auto
  moreover have "dropWhile (\<lambda>c. c = NL) s = s" using n by (intro dropWhile_unchanged) auto
  ultimately show ?thesis by (simp add: strip_newlines_def lstrip_by_def)
qed

lemma tidy_one: "NL \<notin> set t \<Longrightarrow> tidy [t] = rstrip t"
proof -
  assume n: "NL \<notin> set t"
  have "NL \<notin> set (rstrip t)"
    using n set_rstrip_by [of is_space t] by (auto simp: rstrip_def)
  then show ?thesis by (simp add: tidy_def blank_run_noop strip_newlines_noop)
qed

lemma rows_of_one_line: "NL \<notin> set t \<Longrightarrow> tidy (merge_rows (split_lines t)) = rstrip t"
  by (simp add: split_lines_one merge_rows_one tidy_one)

lemma re_sub_whole: "s \<noteq> [] \<Longrightarrow> m s = Some (out, []) \<Longrightarrow> re_sub m s = out"
  by (cases s) auto

subsection \<open>Amounts\<close>

lemma decimal_amount_cases:
  assumes "decimal_amount U amount"
  obtains (whole) "amount \<noteq> []" "list_all (is_digit U) amount"
  | (fraction) ds sep fs where "amount = ds @ sep # fs" "ds \<noteq> []" "list_all (is_digit U) ds"
      "sep = 46 \<or> sep = 44" "fs \<noteq> []" "list_all (is_digit U) fs"
proof -
  let ?d = "takeWhile (is_digit U) amount" and ?r = "dropWhile (is_digit U) amount"
  have am: "amount = ?d @ ?r" by simp
  have d: "?d \<noteq> []" "list_all (is_digit U) ?d"
    using assms by (auto simp: decimal_amount_def Let_def list_all_iff dest: set_takeWhileD)
  show thesis
  proof (cases "?r = []")
    case True
    with am have "amount = ?d" by simp
    with d whole show thesis by metis
  next
    case False
    then obtain sep fs where r: "?r = sep # fs" by (cases ?r) auto
    with assms False have "sep = 46 \<or> sep = 44" "fs \<noteq> []" "list_all (is_digit U) fs"
      by (auto simp: decimal_amount_def Let_def)
    with fraction [of ?d sep fs] am r d show thesis by simp
  qed
qed

lemma amount_chars:
  assumes "decimal_amount U amount" and "c \<in> set amount"
  shows "\<not> is_space c \<and> c \<noteq> REPLACEMENT_CHAR \<and> c \<noteq> EURO \<and> c \<noteq> 60 \<and> c \<noteq> NL \<and>
         c \<noteq> 101 \<and> c \<noteq> 69"
proof -
  have "is_digit U c \<or> c = 46 \<or> c = 44"
    using assms by (cases rule: decimal_amount_cases) (auto simp: list_all_iff)
  then show ?thesis
    using digit_facts [of U c] by (auto simp: is_space_def)
qed

lemma amount_nonempty: "decimal_amount U amount \<Longrightarrow> amount \<noteq> []"
  by (auto simp: decimal_amount_def)


lemma euro_tail_spaces: "list_all is_space ws \<Longrightarrow> euro_tail (ws @ [EURO]) = Some []"
  by (simp add: euro_tail_def dropWhile_append list_all_iff is_space_def)

lemma match_amount_euro_whole:
  assumes "decimal_amount U amount" and "list_all is_space ws"
  shows "match_amount_euro U (amount @ ws @ [EURO]) = Some (amount @ [SPACE, 69, 85, 82, SPACE], [])"
  using assms(1)
proof (cases rule: decimal_amount_cases)
  case whole
  have nd: "\<not> is_digit U (hd (ws @ [EURO]))"
    using assms(2) space_facts(9) [of _ U]
    by (cases ws) (auto simp: is_digit_def symbol_or_space_def)
  have t: "takeWhile (is_digit U) (amount @ ws @ [EURO]) = amount"
    using whole nd by (cases "ws @ [EURO]") (auto simp: takeWhile_append2 list_all_iff takeWhile_append)
  have d: "dropWhile (is_digit U) (amount @ ws @ [EURO]) = ws @ [EURO]"
    using whole nd by (cases "ws @ [EURO]") (auto simp: dropWhile_append list_all_iff)
  have dp: "decimal_part U (ws @ [EURO]) = None"
    using assms(2) space_facts(7,8)
    by (cases ws) (auto simp: decimal_part_def)
  show ?thesis
    using whole(1) by (simp add: match_amount_euro_def t d dp euro_tail_spaces [OF assms(2)])
next
  case (fraction ds sep fs)
  have sd: "\<not> is_digit U sep"
    using fraction(4) by (auto simp: is_digit_def)
  have nd: "\<not> is_digit U (hd (ws @ [EURO]))"
    using assms(2) space_facts(9) [of _ U]
    by (cases ws) (auto simp: is_digit_def symbol_or_space_def)
  have t: "takeWhile (is_digit U) (ds @ sep # fs @ ws @ [EURO]) = ds"
    using fraction sd by (simp add: takeWhile_append list_all_iff)
  have d: "dropWhile (is_digit U) (ds @ sep # fs @ ws @ [EURO]) = sep # fs @ ws @ [EURO]"
    using fraction sd by (simp add: dropWhile_append list_all_iff)
  have t2: "takeWhile (is_digit U) (fs @ ws @ [EURO]) = fs"
    using fraction nd by (cases "ws @ [EURO]") (auto simp: takeWhile_append list_all_iff)
  have d2: "dropWhile (is_digit U) (fs @ ws @ [EURO]) = ws @ [EURO]"
    using fraction nd by (cases "ws @ [EURO]") (auto simp: dropWhile_append list_all_iff)
  have dp: "decimal_part U (sep # fs @ ws @ [EURO]) = Some (sep # fs, ws @ [EURO])"
    using fraction by (simp add: decimal_part_def t2 d2)
  show ?thesis
    unfolding fraction(1)
    using fraction(2) by (simp add: match_amount_euro_def t d dp euro_tail_spaces [OF assms(2)])
qed

lemma upper_eur_skip_list:
  "p \<noteq> [] \<Longrightarrow> (\<And>x. x \<in> set p \<Longrightarrow> x \<noteq> 101 \<and> x \<noteq> 69) \<Longrightarrow>
     upper_eur U prev (p @ s) = p @ upper_eur U (Some (last p)) s"
proof (induction p arbitrary: prev)
  case Nil
  then show ?case by simp
next
  case (Cons a p)
  have a: "\<not> (a = 101 \<or> a = 69)" using Cons.prems(2) [of a] by simp
  show ?case
  proof (cases "p = []")
    case True
    with a show ?thesis by (simp add: upper_eur_skip)
  next
    case False
    have "upper_eur U (Some a) (p @ s) = p @ upper_eur U (Some (last p)) s"
      using False Cons.prems(2) by (intro Cons.IH) auto
    with a False show ?thesis by (simp add: upper_eur_skip)
  qed
qed

text \<open>
  C3, as the code has it: for every amount (digits with an optional decimal part),
  rule 3 rewrites the amount followed by optional white space and the euro sign to the
  amount, a space, \<open>EUR\<close> and a trailing space; \<open>normalize_for_llm\<close> returns the amount,
  a space and \<open>EUR\<close> for it, and also for the amount followed by a space and the code
  \<open>eur\<close> in any letter case: the final right-trim removes the trailing space at the
  end of the line. The amount is kept as it is.
\<close>

theorem currency_canonical:
  assumes "decimal_amount U amount" and "list_all is_space ws" and "eur_letters a b c"
  shows "normalize_currency U (amount @ ws @ [EURO]) = amount @ ascii '' EUR '' \<and>
         normalize_for_llm U (amount @ ws @ [EURO]) = amount @ ascii '' EUR'' \<and>
         normalize_for_llm U (amount @ [SPACE, a, b, c]) = amount @ ascii '' EUR''"
proof -
  note ch = amount_chars [OF assms(1)]
  have sp: "\<And>x. x \<in> set ws \<Longrightarrow> is_space x" using assms(2) by (simp add: list_all_iff)
  let ?t = "amount @ ws @ [EURO]"
  have ne: "?t \<noteq> []" by simp
  have h: "html_breaks ?t = ?t"
    using ch sp space_facts(3) by (intro html_breaks_noop) auto
  have f: "fix_replacement_char U ?t = ?t"
    using ch sp space_facts(1) by (intro fix_replacement_char_noop) auto
  have u: "upper_eur U None ?t = ?t"
    using ch sp space_facts(5,6) by (intro upper_eur_noop_e) auto
  have c1: "normalize_currency U ?t = amount @ [SPACE, 69, 85, 82, SPACE]"
    unfolding normalize_currency_def u
    using ne match_amount_euro_whole [OF assms(1,2)] by (rule re_sub_whole)
  have nl: "NL \<notin> set (amount @ [SPACE, 69, 85, 82, SPACE])" using ch by auto
  have "rstrip (amount @ [SPACE, 69, 85, 82, SPACE]) = amount @ [SPACE, 69, 85, 82]"
    by (simp add: rstrip_def rstrip_by_def is_space_def)
  then have n1: "normalize_for_llm U ?t = amount @ [SPACE, 69, 85, 82]"
    using ne by (simp add: normalize_for_llm_def h f c1 rows_of_one_line [OF nl] del: append_assoc)
  let ?s = "amount @ [SPACE, a, b, c]"
  from assms(3) have abc: "a = 101 \<or> a = 69" "b = 117 \<or> b = 85" "c = 114 \<or> c = 82"
    by (auto simp: eur_letters_def)
  have h2: "html_breaks ?s = ?s"
    using ch abc by (intro html_breaks_noop) auto
  have f2: "fix_replacement_char U ?s = ?s"
    using ch abc by (intro fix_replacement_char_noop) auto
  have "upper_eur U None ((amount @ [SPACE]) @ [a, b, c]) =
          (amount @ [SPACE]) @ upper_eur U (Some (last (amount @ [SPACE]))) [a, b, c]"
    using ch by (intro upper_eur_skip_list) auto
  moreover have "upper_eur U (Some SPACE) [a, b, c] = [69, 85, 82]"
    using assms(3) by (simp add: boundary_before_def boundary_after_def is_word_def)
  ultimately have u2: "upper_eur U None ?s = amount @ [SPACE, 69, 85, 82]" by simp
  have e2: "re_sub (match_amount_euro U) (amount @ [SPACE, 69, 85, 82]) = amount @ [SPACE, 69, 85, 82]"
    using ch by (intro amount_euro_noop) auto
  have nl2: "NL \<notin> set (amount @ [SPACE, 69, 85, 82])" using ch by auto
  have "rstrip (amount @ [SPACE, 69, 85, 82]) = amount @ [SPACE, 69, 85, 82]"
    by (simp add: rstrip_def rstrip_by_def is_space_def)
  then have n2: "normalize_for_llm U ?s = amount @ [SPACE, 69, 85, 82]"
    by (simp add: normalize_for_llm_def h2 f2 normalize_currency_def u2 e2 rows_of_one_line [OF nl2]
        del: append_assoc)
  show ?thesis using c1 n1 n2 by (simp add: ascii_def)
qed


theorem currency_canonical_witness:
  "decimal_amount ascii_only (ascii ''12.50'') \<and>
   normalize_currency ascii_only (ascii ''12.50 '' @ [EURO]) = ascii ''12.50 EUR '' \<and>
   normalize_for_llm ascii_only (ascii ''12.50 '' @ [EURO]) = ascii ''12.50 EUR'' \<and>
   normalize_for_llm ascii_only (ascii ''12.50 eUr'') = ascii ''12.50 EUR''"
proof -
  have 1: "decimal_amount ascii_only (ascii ''12.50'')"
    by (simp add: decimal_amount_def is_digit_def ascii_def)
  have 2: "list_all is_space (ascii '' '')"
    by (simp add: is_space_def ascii_def)
  have 3: "eur_letters 101 85 114"
    by (simp add: eur_letters_def)
  show ?thesis
    using 1 currency_canonical [OF 1 2 3] by (simp add: ascii_def)
qed

text \<open>
  The claim as the spec words it fails: the output for \<open>15\<close> and the euro sign is
  \<open>15 EUR\<close>, without the trailing space.
\<close>

theorem currency_trailing_space_trimmed:
  "normalize_for_llm ascii_only (ascii ''15'' @ [EURO]) = ascii ''15 EUR'' \<and>
   \<not> has_infix (ascii ''15 EUR '') (normalize_for_llm ascii_only (ascii ''15'' @ [EURO]))"
  by (simp add: eval_defs starts_with_def)

subsection \<open>The replacement character between two word characters\<close>

lemma re_sub_skip_prefix:
  "(\<And>a b. pre = a @ b \<Longrightarrow> b \<noteq> [] \<Longrightarrow> m (b @ rest) = None) \<Longrightarrow>
     re_sub m (pre @ rest) = pre @ re_sub m rest"
proof (induction pre)
  case Nil
  then show ?case by simp
next
  case (Cons c cs)
  have "m ((c # cs) @ rest) = None"
    by (rule Cons.prems [of "[]"]) auto
  moreover have "re_sub m (cs @ rest) = cs @ re_sub m rest"
  proof (rule Cons.IH)
    fix a b
    assume "cs = a @ b" "b \<noteq> []"
    then show "m (b @ rest) = None"
      using Cons.prems [of "c # a" b] by simp
  qed
  ultimately show ?case by simp
qed

lemma first_nonspace:
  "dropWhile is_space (q @ y # r) = x # t \<Longrightarrow> \<not> is_space y \<Longrightarrow> x \<in> set q \<or> x = y"
proof (cases "\<forall>z\<in>set q. is_space z")
  case True
  assume "dropWhile is_space (q @ y # r) = x # t" "\<not> is_space y"
  with True show ?thesis by (simp add: dropWhile_append)
next
  case False
  assume "dropWhile is_space (q @ y # r) = x # t"
  moreover obtain z where "z \<in> set q" "\<not> is_space z" using False by blast
  ultimately have "dropWhile is_space q @ y # r = x # t" by (simp add: dropWhile_append1)
  moreover have "dropWhile is_space q \<noteq> []" using False by (simp add: dropWhile_eq_Nil_conv)
  ultimately have "hd (dropWhile is_space q) = x" by (cases "dropWhile is_space q") auto
  moreover have "hd (dropWhile is_space q) \<in> set q"
    using \<open>dropWhile is_space q \<noteq> []\<close> by (metis hd_in_set set_dropWhileD)
  ultimately show ?thesis by simp
qed

lemma match_word_pair_blocked:
  "REPLACEMENT_CHAR \<notin> set q \<Longrightarrow> y \<noteq> REPLACEMENT_CHAR \<Longrightarrow> \<not> is_space y \<Longrightarrow>
     match_word_pair U (c # q @ y # r) = None"
  by (auto simp: match_word_pair_def split: list.splits dest!: first_nonspace)

lemma match_digit_marker_blocked:
  "REPLACEMENT_CHAR \<notin> set q \<Longrightarrow> y \<noteq> REPLACEMENT_CHAR \<Longrightarrow> \<not> is_space y \<Longrightarrow>
     match_digit_marker U (c # q @ y # r) = None"
  by (auto simp: match_digit_marker_def split: list.splits dest!: first_nonspace)

lemma match_marker_blocked:
  "REPLACEMENT_CHAR \<notin> set q \<Longrightarrow> y \<noteq> REPLACEMENT_CHAR \<Longrightarrow> \<not> is_space y \<Longrightarrow>
     match_marker (q @ y # r) = None"
  by (auto simp: match_marker_def split: list.splits dest!: first_nonspace)

lemma match_word_pair_hit:
  assumes "is_word U w1" "is_word U w2" "list_all is_space ws1" "list_all is_space ws2"
  shows "match_word_pair U (w1 # ws1 @ REPLACEMENT_CHAR # ws2 @ w2 # post) =
           Some ([w1, SPACE, EM_DASH, SPACE, w2], post)"
proof -
  have 1: "dropWhile is_space (ws1 @ REPLACEMENT_CHAR # ws2 @ w2 # post) =
             REPLACEMENT_CHAR # ws2 @ w2 # post"
    using assms(3) by (simp add: dropWhile_append list_all_iff is_space_def)
  have 2: "dropWhile is_space (ws2 @ w2 # post) = w2 # post"
    using assms(4) word_facts(1) [OF assms(2)] by (simp add: dropWhile_append list_all_iff)
  show ?thesis using assms(1,2) by (simp add: match_word_pair_def 1 2)
qed

lemma re_sub_digit_marker_head:
  "\<exists>t. re_sub (match_digit_marker U) (d # r) = d # t"
  by (auto simp: match_digit_marker_def split: list.splits option.splits)

lemma first_marker_between_words:
  assumes "is_word U w1" "is_word U w2" "list_all is_space ws1" "list_all is_space ws2"
    and "REPLACEMENT_CHAR \<notin> set pre"
  shows "fix_replacement_char U (pre @ w1 # ws1 @ REPLACEMENT_CHAR # ws2 @ w2 # post) =
           pre @ [w1, SPACE, EM_DASH, SPACE, w2] @
           re_sub match_marker
             (tl (re_sub (match_digit_marker U) (w2 # re_sub (match_word_pair U) post)))"
proof -
  let ?hit = "w1 # ws1 @ REPLACEMENT_CHAR # ws2 @ w2 # post"
  let ?P1 = "re_sub (match_word_pair U) post"
  let ?A = "pre @ [w1, SPACE, EM_DASH, SPACE]"
  note w1 = word_facts [OF assms(1)] and w2 = word_facts [OF assms(2)]
  have "re_sub (match_word_pair U) (pre @ ?hit) = pre @ re_sub (match_word_pair U) ?hit"
  proof (rule re_sub_skip_prefix)
    fix a b
    assume "pre = a @ b" "b \<noteq> []"
    then obtain c q where b: "b = c # q" and "set q \<subseteq> set pre" by (cases b) auto
    then have "REPLACEMENT_CHAR \<notin> set q" using assms(5) by auto
    then show "match_word_pair U (b @ ?hit) = None"
      unfolding b using w1 by (simp add: match_word_pair_blocked)
  qed
  moreover have "re_sub (match_word_pair U) ?hit = [w1, SPACE, EM_DASH, SPACE, w2] @ ?P1"
    using match_word_pair_hit [OF assms(1-4), of post] by simp
  ultimately have a: "re_sub (match_word_pair U) (pre @ ?hit) = ?A @ w2 # ?P1" by simp
  have fa: "REPLACEMENT_CHAR \<notin> set ?A" using assms(5) w1 by auto
  have b: "re_sub (match_digit_marker U) (?A @ w2 # ?P1) = ?A @ re_sub (match_digit_marker U) (w2 # ?P1)"
  proof (rule re_sub_skip_prefix)
    fix a b
    assume "?A = a @ b" "b \<noteq> []"
    then have "set b \<subseteq> set ?A" and "b \<noteq> []" by (metis Un_iff set_append subsetI, simp)
    then obtain c q where b: "b = c # q" and "set q \<subseteq> set ?A" by (cases b) auto
    then have "REPLACEMENT_CHAR \<notin> set q" using fa by blast
    then show "match_digit_marker U (b @ w2 # ?P1) = None"
      unfolding b using w2 by (simp add: match_digit_marker_blocked)
  qed
  obtain P2 where p2: "re_sub (match_digit_marker U) (w2 # ?P1) = w2 # P2"
    using re_sub_digit_marker_head by blast
  have c: "re_sub match_marker ((?A @ [w2]) @ P2) = (?A @ [w2]) @ re_sub match_marker P2"
  proof (rule re_sub_skip_prefix)
    fix a b
    assume ab: "?A @ [w2] = a @ b" and "b \<noteq> []"
    then obtain q where b: "b = q @ [w2]" and "?A = a @ q"
      by (cases b rule: rev_cases) auto
    then have "set q \<subseteq> set ?A" by (metis Un_iff set_append subsetI)
    then have "REPLACEMENT_CHAR \<notin> set q" using fa by blast
    then show "match_marker (b @ P2) = None"
      unfolding b using w2 by (simp add: match_marker_blocked)
  qed
  show ?thesis
    unfolding fix_replacement_char_def a b p2 using c by simp
qed

subsection \<open>Rows that continue on the next line\<close>

lemma merge_step_nonempty: "merge_step merged line \<noteq> []"
  by (simp add: merge_step_def)

lemma foldl_merge_nonempty: "acc \<noteq> [] \<or> ls \<noteq> [] \<Longrightarrow> foldl merge_step acc ls \<noteq> []"
  by (induction ls arbitrary: acc) (auto simp: merge_step_nonempty)

lemma merge_rows_nonempty: "before \<noteq> [] \<Longrightarrow> merge_rows before \<noteq> []"
  by (simp add: merge_rows_def foldl_merge_nonempty)

lemma merge_rows_snoc:
  assumes "before \<noteq> []" and "is_continuation line"
  shows "merge_rows (before @ [line]) =
           butlast (merge_rows before) @ [last (merge_rows before) @ [SPACE] @ strip line]"
  using assms merge_rows_nonempty [OF assms(1)]
  by (simp add: merge_rows_def merge_step_def)

lemma continuation_ends_with_pipe: "is_continuation line \<Longrightarrow> strip line \<noteq> [] \<and> last (strip line) = PIPE"
  by (simp add: is_continuation_def endswith_def)

text \<open>What the rest of the loop makes of the row it has just extended.\<close>

lemma foldl_merge_grows:
  "\<exists>ext rest. foldl merge_step (rows @ [x]) after = rows @ (x @ ext) # rest \<and>
                 (ext = [] \<or> last ext = PIPE)"
proof (induction after arbitrary: rows x)
  case Nil
  have "foldl merge_step (rows @ [x]) [] = rows @ (x @ []) # [] \<and> ([] = [] \<or> last [] = PIPE)"
    by simp
  then show ?case by blast
next
  case (Cons l after)
  show ?case
  proof (cases "is_continuation l")
    case True
    then have s: "merge_step (rows @ [x]) l = rows @ [x @ [SPACE] @ strip l]"
      by (simp add: merge_step_def)
    obtain ext rest where
      m: "foldl merge_step (rows @ [x @ [SPACE] @ strip l]) after = rows @ ((x @ [SPACE] @ strip l) @ ext) # rest"
      and e: "ext = [] \<or> last ext = PIPE"
      using Cons.IH [of rows "x @ [SPACE] @ strip l"] by blast
    have "last ([SPACE] @ strip l @ ext) = PIPE"
      using e continuation_ends_with_pipe [OF True] by (cases "ext = []") auto
    then have "foldl merge_step (rows @ [x]) (l # after) = rows @ (x @ ([SPACE] @ strip l @ ext)) # rest \<and>
          ([SPACE] @ strip l @ ext = [] \<or> last ([SPACE] @ strip l @ ext) = PIPE)"
      using s m by simp
    then show ?thesis by blast
  next
    case False
    then have s: "merge_step (rows @ [x]) l = (rows @ [x]) @ [l]"
      by (simp add: merge_step_def)
    obtain ext rest where
      m: "foldl merge_step ((rows @ [x]) @ [l]) after = (rows @ [x]) @ (l @ ext) # rest"
      using Cons.IH [of "rows @ [x]" l] by blast
    have "foldl merge_step (rows @ [x]) (l # after) = rows @ (x @ []) # ((l @ ext) # rest) \<and>
          ([] = [] \<or> last [] = PIPE)"
      using s m by simp
    then show ?thesis by blast
  qed
qed

subsection \<open>Rows hold no line break\<close>

lemma split_lines_nonempty: "split_lines t \<noteq> []"
  by (induction t) (auto split: list.splits)

lemma split_lines_nl_free: "r \<in> set (split_lines t) \<Longrightarrow> NL \<notin> set r"
proof (induction t arbitrary: r)
  case Nil
  then show ?case by simp
next
  case (Cons c t)
  show ?case
  proof (cases "c = NL")
    case True
    with Cons show ?thesis by auto
  next
    case False
    obtain l ls where sl: "split_lines t = l # ls"
      using split_lines_nonempty [of t] by (cases "split_lines t") auto
    with False Cons.prems have "r = c # l \<or> r \<in> set ls" by auto
    then show ?thesis
    proof
      assume "r = c # l"
      moreover have "NL \<notin> set l" using Cons.IH [of l] sl by simp
      ultimately show ?thesis using False by auto
    next
      assume "r \<in> set ls"
      then show ?thesis using Cons.IH [of r] sl by simp
    qed
  qed
qed

lemma merge_step_nl_free:
  assumes "\<And>r. r \<in> set merged \<Longrightarrow> NL \<notin> set r" and "NL \<notin> set line"
    and "r \<in> set (merge_step merged line)"
  shows "NL \<notin> set r"
proof (cases "is_continuation line \<and> merged \<noteq> []")
  case True
  then have "r \<in> set (butlast merged) \<or> r = last merged @ [SPACE] @ strip line"
    using assms(3) by (auto simp: merge_step_def)
  moreover have "NL \<notin> set (last merged)" using True assms(1) by simp
  moreover have "NL \<notin> set (strip line)" using assms(2) set_strip by blast
  ultimately show ?thesis using assms(1) by (auto dest: in_set_butlastD)
next
  case False
  then have "r \<in> set merged \<or> r = line"
    using assms(3) by (auto simp: merge_step_def)
  then show ?thesis using assms(1,2) by auto
qed

lemma foldl_merge_nl_free:
  "(\<And>r. r \<in> set acc \<Longrightarrow> NL \<notin> set r) \<Longrightarrow> (\<And>l. l \<in> set ls \<Longrightarrow> NL \<notin> set l) \<Longrightarrow>
     r \<in> set (foldl merge_step acc ls) \<Longrightarrow> NL \<notin> set r"
proof (induction ls arbitrary: acc)
  case Nil
  then show ?case by simp
next
  case (Cons l ls)
  show ?case
  proof (rule Cons.IH [of "merge_step acc l"])
    fix r' assume "r' \<in> set (merge_step acc l)"
    then show "NL \<notin> set r'"
      using merge_step_nl_free [of acc l r'] Cons.prems(1,2) by simp
  next
    fix l' assume "l' \<in> set ls"
    then show "NL \<notin> set l'" using Cons.prems(2) by simp
  next
    show "r \<in> set (foldl merge_step (merge_step acc l) ls)" using Cons.prems(3) by simp
  qed
qed

lemma merge_rows_nl_free:
  "(\<And>l. l \<in> set ls \<Longrightarrow> NL \<notin> set l) \<Longrightarrow> r \<in> set (merge_rows ls) \<Longrightarrow> NL \<notin> set r"
  unfolding merge_rows_def by (rule foldl_merge_nl_free [of "[]" ls r]) auto

subsection \<open>Rule 5 keeps what stands on one line\<close>

lemma rstrip_by_keeps: "s \<noteq> [] \<Longrightarrow> \<not> P (last s) \<Longrightarrow> rstrip_by P s = s"
  by (cases s rule: rev_cases) (auto simp: rstrip_by_snoc)

lemma join_lines_holds: "R \<in> set rows \<Longrightarrow> \<exists>p q. join_lines rows = p @ R @ q"
proof (induction rows rule: join_lines.induct)
  case 1
  then show ?case by simp
next
  case (2 l)
  then have "join_lines [l] = [] @ R @ []" by simp
  then show ?case by blast
next
  case (3 l v va)
  show ?case
  proof (cases "R = l")
    case True
    then have "join_lines (l # v # va) = [] @ R @ (NL # join_lines (v # va))" by simp
    then show ?thesis by blast
  next
    case False
    with 3 obtain p q where "join_lines (v # va) = p @ R @ q" by auto
    then have "join_lines (l # v # va) = (l @ NL # p) @ R @ q" by simp
    then show ?thesis by blast
  qed
qed

lemma blank_run_before_text:
  assumes "X \<noteq> []" and "hd X \<noteq> NL"
  shows "match_blank_run (p @ X @ q) =
           (case match_blank_run p of None \<Rightarrow> None | Some (out, rest) \<Rightarrow> Some (out, rest @ X @ q))"
proof -
  obtain x X' where X: "X = x # X'" "x \<noteq> NL" using assms by (cases X) auto
  have t: "takeWhile (\<lambda>c. c = NL) (p @ X @ q) = takeWhile (\<lambda>c. c = NL) p"
    using X(2) unfolding X(1) by (induction p) auto
  have d: "dropWhile (\<lambda>c. c = NL) (p @ X @ q) = dropWhile (\<lambda>c. c = NL) p @ X @ q"
    using X(2) unfolding X(1) by (induction p) auto
  show ?thesis by (simp add: match_blank_run_def t d)
qed

lemma match_blank_run_shorter: "match_blank_run (c # cs) = Some (out, rest) \<Longrightarrow> length rest \<le> length cs"
proof -
  assume "match_blank_run (c # cs) = Some (out, rest)"
  then have r: "rest = dropWhile (\<lambda>c. c = NL) (c # cs)" and "c = NL"
    by (auto simp: match_blank_run_def split: if_splits)
  then have "rest = dropWhile (\<lambda>c. c = NL) cs" by simp
  then show ?thesis by (simp add: length_dropWhile_le)
qed

lemma blank_runs_around_text:
  assumes "X \<noteq> []" and "NL \<notin> set X"
  shows "re_sub match_blank_run (p @ X @ q) =
           re_sub match_blank_run p @ X @ re_sub match_blank_run q"
proof (induction "length p" arbitrary: p rule: less_induct)
  case less
  have hd: "hd X \<noteq> NL" using assms by (cases X) auto
  show ?case
  proof (cases p)
    case Nil
    have "re_sub match_blank_run (X @ q) = X @ re_sub match_blank_run q"
    proof (rule re_sub_skip_prefix)
      fix a b
      assume "X = a @ b" "b \<noteq> []"
      then have "hd (b @ q) \<noteq> NL" "b @ q \<noteq> []" using assms(2) by (cases b; auto)+
      then show "match_blank_run (b @ q) = None"
        by (cases "b @ q") (auto simp: match_blank_run_def)
    qed
    with Nil show ?thesis by simp
  next
    case (Cons c cs)
    note m = blank_run_before_text [OF assms(1) hd, of p q]
    show ?thesis
    proof (cases "match_blank_run p")
      case None
      with m have "match_blank_run (p @ X @ q) = None" by simp
      moreover have "re_sub match_blank_run (cs @ X @ q) =
                       re_sub match_blank_run cs @ X @ re_sub match_blank_run q"
        using less [of cs] Cons by simp
      ultimately show ?thesis using None Cons by simp
    next
      case (Some a)
      then obtain out rest where a: "match_blank_run p = Some (out, rest)" by (cases a) auto
      then have l: "length rest \<le> length cs"
        using Cons match_blank_run_shorter by blast
      have "match_blank_run (p @ X @ q) = Some (out, rest @ X @ q)" using m a by simp
      moreover have "re_sub match_blank_run (rest @ X @ q) =
                       re_sub match_blank_run rest @ X @ re_sub match_blank_run q"
        using less [of rest] l Cons by simp
      ultimately show ?thesis using a l Cons by simp
    qed
  qed
qed

lemma strip_newlines_around_text:
  assumes "X \<noteq> []" and "NL \<notin> set X"
  shows "\<exists>p' q'. strip_newlines (p @ X @ q) = p' @ X @ q'"
proof -
  let ?P = "\<lambda>c. c = NL"
  have "last X \<in> set X" "hd X \<in> set X" using assms(1) by simp_all
  then have lx: "\<not> ?P (last X)" "\<not> ?P (hd X)" using assms(2) by metis+
  have k: "rstrip_by ?P (p @ X) = p @ X"
    using assms(1) lx(1) by (intro rstrip_by_keeps) auto
  have "rstrip_by ?P ((p @ X) @ q) =
          (if list_all ?P q then rstrip_by ?P (p @ X) else (p @ X) @ rstrip_by ?P q)"
    by (rule rstrip_by_append)
  then have "rstrip_by ?P ((p @ X) @ q) = (p @ X) @ (if list_all ?P q then [] else rstrip_by ?P q)"
    unfolding k by simp
  then obtain q' where r: "rstrip_by ?P (p @ X @ q) = p @ X @ q'" by auto
  have "\<exists>p'. dropWhile ?P (p @ X @ q') = p' @ X @ q'"
  proof (cases "\<forall>c\<in>set p. ?P c")
    case True
    then have "dropWhile ?P (p @ X @ q') = dropWhile ?P (X @ q')" by (simp add: dropWhile_append)
    also have "\<dots> = [] @ X @ q'" using assms(1) lx(2) by (cases X) auto
    finally show ?thesis by blast
  next
    case False
    then obtain z where "z \<in> set p" "\<not> ?P z" by blast
    then have "dropWhile ?P (p @ X @ q') = dropWhile ?P p @ X @ q'" by (simp add: dropWhile_append1)
    then show ?thesis by blast
  qed
  then obtain p' where "dropWhile ?P (p @ X @ q') = p' @ X @ q'" by blast
  then have "strip_newlines (p @ X @ q) = p' @ X @ q'"
    using r by (simp add: strip_newlines_def lstrip_by_def)
  then show ?thesis by blast
qed

lemma tidy_holds_row:
  assumes "R \<in> set rows" and "R = X @ ext" and "X \<noteq> []" and "NL \<notin> set X"
    and "last R = PIPE"
  shows "has_infix X (tidy rows)"
proof -
  have rn: "R \<noteq> []" using assms(2,3) by simp
  have "rstrip R = R"
    using rn assms(5) by (simp add: rstrip_def rstrip_by_keeps is_space_def)
  then have "R \<in> set (map rstrip rows)" using assms(1) by force
  then obtain p q where "join_lines (map rstrip rows) = p @ R @ q"
    using join_lines_holds by blast
  then have j: "join_lines (map rstrip rows) = p @ X @ (ext @ q)" using assms(2) by simp
  have "re_sub match_blank_run (p @ X @ (ext @ q)) =
          re_sub match_blank_run p @ X @ re_sub match_blank_run (ext @ q)"
    using assms(3,4) by (rule blank_runs_around_text)
  moreover obtain p' q' where
    "strip_newlines (re_sub match_blank_run p @ X @ re_sub match_blank_run (ext @ q)) = p' @ X @ q'"
    using strip_newlines_around_text [OF assms(3,4)] by blast
  ultimately have "tidy rows = p' @ X @ q'" by (simp add: tidy_def j)
  then show ?thesis unfolding has_infix_iff by blast
qed

text \<open>
  C6, as the code has it. Take the lines of the text as rule 4 receives it, after rules
  1 to 3. A line other than the first whose stripped form ends with \<open>|\<close> and does not
  start with it is not kept as a row of its own: the loop appends its stripped content,
  after a single space, to the row it has built last, and the output of
  \<open>normalize_for_llm\<close> holds that row, the space and the stripped content on one line.
\<close>

theorem continuation_appended:
  assumes "raw \<noteq> []"
    and "split_lines (normalize_currency U (fix_replacement_char U (html_breaks raw))) =
           before @ line # after"
    and "before \<noteq> []" and "is_continuation line"
  shows "merge_rows (before @ [line]) =
           butlast (merge_rows before) @ [last (merge_rows before) @ [SPACE] @ strip line] \<and>
         length (merge_rows (before @ [line])) = length (merge_rows before) \<and>
         normalize_for_llm U raw = tidy (foldl merge_step (merge_rows (before @ [line])) after) \<and>
         has_infix (last (merge_rows before) @ [SPACE] @ strip line) (normalize_for_llm U raw)"
proof -
  let ?m = "merge_rows before"
  let ?X = "last ?m @ [SPACE] @ strip line"
  have mn: "?m \<noteq> []" using assms(3) by (rule merge_rows_nonempty)
  have s: "merge_rows (before @ [line]) = butlast ?m @ [?X]"
    using assms(3,4) by (rule merge_rows_snoc)
  have len: "length (merge_rows (before @ [line])) = length ?m"
    using mn by (simp add: s)
  have n: "normalize_for_llm U raw = tidy (foldl merge_step (merge_rows (before @ [line])) after)"
    using assms(1) by (simp add: normalize_for_llm_def assms(2) merge_rows_def)
  obtain ext rest where
    g: "foldl merge_step (butlast ?m @ [?X]) after = butlast ?m @ (?X @ ext) # rest"
    and e: "ext = [] \<or> last ext = PIPE"
    using foldl_merge_grows [of "butlast ?m" ?X after] by blast
  have lines: "\<And>l. l \<in> set before \<union> {line} \<Longrightarrow> NL \<notin> set l"
  proof -
    fix l assume "l \<in> set before \<union> {line}"
    then have "l \<in> set (before @ line # after)" by auto
    then show "NL \<notin> set l" using split_lines_nl_free assms(2) by metis
  qed
  have "NL \<notin> set (last ?m)"
    using mn merge_rows_nl_free [of before "last ?m"] lines by simp
  moreover have "NL \<notin> set (strip line)" using lines set_strip by blast
  ultimately have xn: "NL \<notin> set ?X" by simp
  have xl: "last (?X @ ext) = PIPE"
    using e continuation_ends_with_pipe [OF assms(4)] by (cases "ext = []") auto
  have "has_infix ?X (tidy (butlast ?m @ (?X @ ext) # rest))"
    by (rule tidy_holds_row [of "?X @ ext" _ ?X ext]) (use xn xl in auto)
  moreover have "normalize_for_llm U raw = tidy (butlast ?m @ (?X @ ext) # rest)"
    unfolding n s g ..
  ultimately have "has_infix ?X (normalize_for_llm U raw)"
    by simp
  with s len n show ?thesis by blast
qed


theorem continuation_appended_witness:
  "is_continuation (ascii ''b|'') \<and>
   has_infix (ascii ''|a b|'')
     (normalize_for_llm ascii_only (ascii ''|a'' @ [NL] @ ascii ''b|''))"
proof -
  let ?raw = "ascii ''|a'' @ [NL] @ ascii ''b|''"
  have 1: "?raw \<noteq> []" by (simp add: ascii_def)
  have 2: "split_lines (normalize_currency ascii_only (fix_replacement_char ascii_only (html_breaks ?raw)))
             = [ascii ''|a''] @ ascii ''b|'' # []"
    by (simp add: eval_defs)
  have 3: "[ascii ''|a''] \<noteq> []" by simp
  have 4: "is_continuation (ascii ''b|'')" by (simp add: eval_defs)
  have 5: "last (merge_rows [ascii ''|a'']) @ [SPACE] @ strip (ascii ''b|'') = ascii ''|a b|''"
    by (simp add: eval_defs)
  have "has_infix (last (merge_rows [ascii ''|a'']) @ [SPACE] @ strip (ascii ''b|''))
          (normalize_for_llm ascii_only ?raw)"
    using continuation_appended [OF 1 2 3 4] by blast
  then show ?thesis
    using 4 unfolding 5 by blast
qed

text \<open>
  The claim as the spec words it fails on the lines of the input. A first line of that
  shape has no line before it and stays a line of its own; and a line that rule 1
  breaks at \<open><br>\<close> is not appended to the line before it: only its last piece is
  appended, to its own first piece.
\<close>

theorem continuation_first_line_kept:
  "is_continuation (ascii ''a|'') \<and>
   normalize_for_llm ascii_only (ascii ''a|'' @ [NL] @ ascii ''b'') = ascii ''a|'' @ [NL] @ ascii ''b'' \<and>
   is_continuation (ascii ''y<br>z|'') \<and>
   normalize_for_llm ascii_only (ascii ''x'' @ [NL] @ ascii ''y<br>z|'') = ascii ''x'' @ [NL] @ ascii ''y z|''"
  by (simp add: eval_defs)

subsection \<open>Normalising twice\<close>

subsection \<open>Lines\<close>

lemma split_lines_Cons:
  "c \<noteq> NL \<Longrightarrow> split_lines (c # cs) = (c # hd (split_lines cs)) # tl (split_lines cs)"
  using split_lines_nonempty [of cs] by (cases "split_lines cs") auto







subsection \<open>Runs of line breaks\<close>

lemma match_blank_run_Some:
  "match_blank_run s = Some (out, rest) \<longleftrightarrow>
     3 \<le> length (takeWhile (\<lambda>c. c = NL) s) \<and> out = [NL, NL] \<and> rest = dropWhile (\<lambda>c. c = NL) s"
  by (auto simp: match_blank_run_def)

lemma re_sub_blank_run_step:
  "re_sub match_blank_run (c # cs) =
     (if 3 \<le> length (takeWhile (\<lambda>c. c = NL) (c # cs))
      then [NL, NL] @ re_sub match_blank_run (dropWhile (\<lambda>c. c = NL) (c # cs))
      else c # re_sub match_blank_run cs)"
proof (cases "3 \<le> length (takeWhile (\<lambda>c. c = NL) (c # cs))")
  case True
  then have m: "match_blank_run (c # cs) = Some ([NL, NL], dropWhile (\<lambda>c. c = NL) (c # cs))"
    by (simp add: match_blank_run_def)
  then have "length (dropWhile (\<lambda>c. c = NL) (c # cs)) \<le> length cs"
    by (rule match_blank_run_shorter)
  with m True show ?thesis by simp
next
  case False
  then have "match_blank_run (c # cs) = None" by (simp add: match_blank_run_def)
  with False show ?thesis by simp
qed












subsection \<open>Rule 5 applied twice\<close>



subsection \<open>The characters of the output\<close>

lemma set_split_lines: "l \<in> set (split_lines t) \<Longrightarrow> set l \<subseteq> set t"
proof (induction t arbitrary: l)
  case Nil
  then show ?case by simp
next
  case (Cons c t)
  obtain l0 ls where s: "split_lines t = l0 # ls"
    using split_lines_nonempty [of t] by (cases "split_lines t") auto
  show ?case
  proof (cases "c = NL")
    case True
    with Cons show ?thesis by auto
  next
    case False
    with Cons.prems s have "l = c # l0 \<or> l \<in> set ls" by auto
    then show ?thesis using Cons.IH [of l0] Cons.IH [of l] s by auto
  qed
qed

lemma set_join_lines: "c \<in> set (join_lines ls) \<Longrightarrow> c = NL \<or> (\<exists>l\<in>set ls. c \<in> set l)"
  by (induction ls rule: join_lines.induct) auto

lemma set_collapse: "c \<in> set (re_sub match_blank_run t) \<Longrightarrow> c = NL \<or> c \<in> set t"
proof (induction "length t" arbitrary: t rule: less_induct)
  case less
  show ?case
  proof (cases t)
    case Nil
    with less.prems show ?thesis by simp
  next
    case (Cons a cs)
    let ?P = "\<lambda>c. c = NL"
    show ?thesis
    proof (cases "3 \<le> length (takeWhile ?P t)")
      case True
      let ?rest = "dropWhile ?P t"
      have e: "re_sub match_blank_run t = NL # NL # re_sub match_blank_run ?rest"
        using True unfolding Cons by (simp add: re_sub_blank_run_step del: re_sub.simps)
      have "length (takeWhile ?P t) + length ?rest = length t"
        by (metis length_append takeWhile_dropWhile_id)
      then have "length ?rest < length t" using True by linarith
      then have "c \<in> set (re_sub match_blank_run ?rest) \<Longrightarrow> c = NL \<or> c \<in> set ?rest"
        by (rule less(1))
      moreover have "c \<in> set (NL # NL # re_sub match_blank_run ?rest)"
        using less.prems unfolding e .
      ultimately show ?thesis by (auto dest: set_dropWhileD)
    next
      case False
      have e: "re_sub match_blank_run t = a # re_sub match_blank_run cs"
        using False unfolding Cons by (simp add: re_sub_blank_run_step del: re_sub.simps)
      have "c \<in> set (re_sub match_blank_run cs) \<Longrightarrow> c = NL \<or> c \<in> set cs"
        using less(1) [of cs] Cons by simp
      moreover have "c \<in> set (a # re_sub match_blank_run cs)"
        using less.prems unfolding e .
      ultimately show ?thesis unfolding Cons by auto
    qed
  qed
qed

lemma set_strip_newlines: "set (strip_newlines z) \<subseteq> set z"
  using set_rstrip_by [of "\<lambda>c. c = NL" z]
  by (auto simp: strip_newlines_def lstrip_by_def dest: set_dropWhileD)

lemma set_tidy_lines: "c \<in> set (tidy (split_lines x)) \<Longrightarrow> c = NL \<or> c \<in> set x"
proof -
  assume "c \<in> set (tidy (split_lines x))"
  then have "c \<in> set (re_sub match_blank_run (join_lines (map rstrip (split_lines x))))"
    using set_strip_newlines unfolding tidy_def by blast
  then have "c = NL \<or> c \<in> set (join_lines (map rstrip (split_lines x)))"
    by (rule set_collapse)
  then have "c = NL \<or> (\<exists>l\<in>set (map rstrip (split_lines x)). c \<in> set l)"
    using set_join_lines by blast
  then have "c = NL \<or> (\<exists>l\<in>set (split_lines x). c \<in> set l)"
    using set_rstrip_by [of is_space] by (auto simp: rstrip_def)
  then show ?thesis using set_split_lines by blast
qed

subsection \<open>Rows without a continuation\<close>




lemma list_all_tidy: "Q NL \<Longrightarrow> list_all Q x \<Longrightarrow> list_all Q (tidy (split_lines x))"
  unfolding list_all_iff using set_tidy_lines [of _ x] by blast

subsection \<open>Tokens\<close>





lemma tokens_Nil [simp]: "tokens [] = []"
  by (simp add: tokens_def)



















subsection \<open>Upper-casing the currency code\<close>

lemma same_letter_refl [simp]: "same_letter a a"
  by (simp add: same_letter_def)

lemma upper_eur_same_letters: "list_all2 same_letter z (upper_eur U q z)"
proof (induction U q z rule: upper_eur.induct)
  case (1 U prev a b c r)
  then show ?case
    by (auto simp: eur_letters_def same_letter_def)
qed (simp_all add: list_all2_refl)


lemma same_letter_word: "same_letter a b \<Longrightarrow> is_word U b = is_word U a"
  by (auto simp: same_letter_def is_word_def)


lemma upper_eur_prev:
  "boundary_before U p = boundary_before U q \<Longrightarrow> upper_eur U p z = upper_eur U q z"
  by (cases "(U, q, z)" rule: upper_eur.cases) auto







lemma upper_eur_not_u:
  "\<not> (b = 117 \<or> b = 85) \<Longrightarrow> upper_eur U prev (a # b # rest) = a # upper_eur U (Some a) (b # rest)"
  by (cases rest) (auto simp: eur_letters_def)



subsection \<open>Runs between separators\<close>

lemma split_by_nonempty: "split_by P t \<noteq> []"
  by (induction t) (auto split: list.splits)

lemma split_by_Cons:
  "\<not> P c \<Longrightarrow> split_by P (c # cs) = (c # hd (split_by P cs)) # tl (split_by P cs)"
  using split_by_nonempty [of P cs] by (cases "split_by P cs") auto

lemma split_by_sep: "P c \<Longrightarrow> split_by P (c # cs) = [] # split_by P cs"
  by simp



lemma split_by_seps:
  "(\<And>c. c \<in> set p \<Longrightarrow> P c) \<Longrightarrow> split_by P (p @ z) = replicate (length p) [] @ split_by P z"
  by (induction p) auto

lemma runs_Nil [simp]: "runs P [] = []"
  by (simp add: runs_def)





lemma runs_hd_tl:
  "runs P z = (if hd (split_by P z) = [] then [] else [hd (split_by P z)]) @
              filter (\<lambda>w. w \<noteq> []) (tl (split_by P z))"
  using split_by_nonempty [of P z] by (cases "split_by P z") (auto simp: runs_def)

lemma split_ws_split_by: "split_ws z = split_by is_space z"
  by (induction z) auto

lemma tokens_runs: "tokens z = runs is_space z"
  by (simp add: tokens_def runs_def split_ws_split_by)

subsection \<open>The currency code between characters that are not word characters\<close>

lemma upper_eur_split:
  assumes "\<not> is_word U s"
  shows "upper_eur U prev (w @ s # rest) = upper_eur U prev w @ s # upper_eur U None rest"
proof (induction "length w" arbitrary: w prev rule: less_induct)
  case less
  have sf: "s \<noteq> 101" "s \<noteq> 69" "s \<noteq> 117" "s \<noteq> 85" "s \<noteq> 114" "s \<noteq> 82"
    using assms by (auto simp: is_word_def)
  have sp: "upper_eur U q (s # rest) = s # upper_eur U None rest" for q
  proof -
    have "upper_eur U q (s # rest) = s # upper_eur U (Some s) rest"
      using sf by (intro upper_eur_skip) auto
    moreover have "upper_eur U (Some s) rest = upper_eur U None rest"
      using assms by (intro upper_eur_prev) (simp add: boundary_before_def)
    ultimately show ?thesis by simp
  qed
  show ?case
  proof (cases w)
    case Nil
    then show ?thesis using sp by simp
  next
    case a: (Cons a w1)
    show ?thesis
    proof (cases w1)
      case Nil
      have "upper_eur U prev (a # s # rest) = a # upper_eur U (Some a) (s # rest)"
        using sf by (intro upper_eur_not_u) auto
      then show ?thesis using a Nil sp by simp
    next
      case b: (Cons b w2)
      show ?thesis
      proof (cases w2)
        case Nil
        have "upper_eur U prev (a # b # s # rest) = a # upper_eur U (Some a) (b # s # rest)"
          using sf by (simp add: eur_letters_def)
        moreover have "upper_eur U (Some a) (b # s # rest) = b # upper_eur U (Some b) (s # rest)"
          using sf by (intro upper_eur_not_u) auto
        ultimately show ?thesis using a b Nil sp by simp
      next
        case c: (Cons c w3)
        have w: "w = a # b # c # w3" using a b c by simp
        have ba: "boundary_after U (w3 @ s # rest) = boundary_after U w3"
          using assms by (cases w3) (simp_all add: boundary_after_def)
        have i1: "upper_eur U (Some c) (w3 @ s # rest) = upper_eur U (Some c) w3 @ s # upper_eur U None rest"
          using less [of w3 "Some c"] w by simp
        have i2: "upper_eur U (Some a) ((b # c # w3) @ s # rest) =
                    upper_eur U (Some a) (b # c # w3) @ s # upper_eur U None rest"
          using less [of "b # c # w3" "Some a"] w by simp
        show ?thesis
          unfolding w using ba i1 i2 by simp
      qed
    qed
  qed
qed


subsection \<open>What a match of the amount pattern consists of\<close>

lemma euro_tail_SomeD:
  assumes "euro_tail r = Some t"
  shows "\<exists>ws ws'. r = ws @ EURO # ws' @ t \<and> list_all is_space ws \<and> list_all is_space ws' \<and>
                   (t = [] \<or> \<not> is_space (hd t))"
proof -
  let ?ws = "takeWhile is_space r"
  obtain t' where d: "dropWhile is_space r = EURO # t'" and t: "t = dropWhile is_space t'"
    using assms by (auto simp: euro_tail_def split: list.splits if_splits)
  let ?ws' = "takeWhile is_space t'"
  have "r = ?ws @ dropWhile is_space r" by simp
  then have "r = ?ws @ EURO # ?ws' @ t" unfolding d t by simp
  moreover have "list_all is_space ?ws" "list_all is_space ?ws'"
    by (auto simp: list_all_iff dest: set_takeWhileD)
  moreover have "t = [] \<or> \<not> is_space (hd t)"
    unfolding t using hd_dropWhile [of is_space t'] by blast
  ultimately show ?thesis by blast
qed

lemma euro_tail_sep: "sep = 46 \<or> sep = 44 \<Longrightarrow> euro_tail (sep # r) = None"
  by (auto simp: euro_tail_def is_space_def)

lemma match_amount_euro_cases:
  assumes "match_amount_euro U s = Some (out, t)"
  obtains amount ws ws' where "s = amount @ ws @ EURO # ws' @ t"
    "out = amount @ [SPACE, 69, 85, 82, SPACE]" "decimal_amount U amount"
    "list_all is_space ws" "list_all is_space ws'" "t = [] \<or> \<not> is_space (hd t)"
proof -
  let ?d = "takeWhile (is_digit U) s" and ?r = "dropWhile (is_digit U) s"
  have s: "s = ?d @ ?r" by simp
  have dn: "?d \<noteq> []" using assms by (auto simp: match_amount_euro_def Let_def)
  have dd: "list_all (is_digit U) ?d" by (auto simp: list_all_iff dest: set_takeWhileD)
  show thesis
  proof (cases "decimal_part U ?r")
    case None
    then have e: "euro_tail ?r = Some t" and o: "out = ?d @ [SPACE, 69, 85, 82, SPACE]"
      using assms dn by (auto simp: match_amount_euro_def Let_def split: option.splits)
    obtain ws ws' where r: "?r = ws @ EURO # ws' @ t" and w: "list_all is_space ws" "list_all is_space ws'"
      "t = [] \<or> \<not> is_space (hd t)"
      using euro_tail_SomeD [OF e] by blast
    have 1: "s = ?d @ ws @ EURO # ws' @ t" using s r by metis
    have 2: "decimal_amount U ?d"
      using dn dd by (simp add: decimal_amount_def Let_def list_all_iff)
    show thesis by (rule that [OF 1 o 2 w])
  next
    case (Some a)
    then obtain frac r' where dp: "decimal_part U ?r = Some (frac, r')" by (cases a) auto
    then obtain sep r1 where r: "?r = sep # r1" and sep: "sep = 46 \<or> sep = 44"
      and fn: "takeWhile (is_digit U) r1 \<noteq> []"
      and frac: "frac = sep # takeWhile (is_digit U) r1" and r': "r' = dropWhile (is_digit U) r1"
      by (auto simp: decimal_part_def split: list.splits if_splits)
    let ?fs = "takeWhile (is_digit U) r1"
    have pl: "euro_tail ?r = None" unfolding r using sep by (rule euro_tail_sep)
    have e: "euro_tail r' = Some t" and o: "out = ?d @ frac @ [SPACE, 69, 85, 82, SPACE]"
      using assms dn dp pl by (auto simp: match_amount_euro_def Let_def split: option.splits)
    obtain ws ws' where rr: "r' = ws @ EURO # ws' @ t" and w: "list_all is_space ws" "list_all is_space ws'"
      "t = [] \<or> \<not> is_space (hd t)"
      using euro_tail_SomeD [OF e] by blast
    have "r1 = ?fs @ r'" unfolding r' by simp
    then have "?r = sep # ?fs @ ws @ EURO # ws' @ t" using r rr by metis
    then have "s = ?d @ sep # ?fs @ ws @ EURO # ws' @ t" using s by metis
    then have s': "s = (?d @ sep # ?fs) @ ws @ EURO # ws' @ t" by simp
    have nsep: "\<not> is_digit U sep" using sep by (auto simp: is_digit_def)
    have fd: "list_all (is_digit U) ?fs" by (auto simp: list_all_iff dest: set_takeWhileD)
    have "takeWhile (is_digit U) (?d @ sep # ?fs) = ?d"
      using dd nsep by (simp add: takeWhile_append list_all_iff)
    moreover have "dropWhile (is_digit U) (?d @ sep # ?fs) = sep # ?fs"
      using dd nsep by (simp add: dropWhile_append list_all_iff)
    ultimately have 2: "decimal_amount U (?d @ sep # ?fs)"
      using dn fn fd sep unfolding decimal_amount_def Let_def by simp
    have 3: "out = (?d @ sep # ?fs) @ [SPACE, 69, 85, 82, SPACE]" using o frac by simp
    show thesis by (rule that [OF s' 3 2 w])
  qed
qed


lemma match_amount_euro_shorter:
  "match_amount_euro U (c # cs) = Some (out, t) \<Longrightarrow> length t \<le> length cs"
proof -
  assume "match_amount_euro U (c # cs) = Some (out, t)"
  then obtain amount ws ws' where s: "c # cs = amount @ ws @ EURO # ws' @ t"
    by (rule match_amount_euro_cases)
  have "length (c # cs) = length amount + length ws + 1 + length ws' + length t"
    unfolding s by simp
  then show ?thesis by simp
qed

lemma re_sub_amount_hit:
  "match_amount_euro U (c # cs) = Some (out, t) \<Longrightarrow>
     re_sub (match_amount_euro U) (c # cs) = out @ re_sub (match_amount_euro U) t"
  using match_amount_euro_shorter [of U c cs out t] by simp

lemma re_sub_amount_miss:
  "match_amount_euro U (c # cs) = None \<Longrightarrow>
     re_sub (match_amount_euro U) (c # cs) = c # re_sub (match_amount_euro U) cs"
  by simp

subsection \<open>Runs between separators\<close>



subsection \<open>The words around a rewritten amount\<close>






subsection \<open>A digit with the euro sign behind it\<close>











subsection \<open>White space does not matter to the amount pattern\<close>






subsection \<open>What a match of a marker pattern consists of\<close>

lemma spaces_then:
  assumes "dropWhile is_space r = x # t"
  obtains ws where "r = ws @ x # t" "list_all is_space ws" "\<not> is_space x"
proof -
  have "r = takeWhile is_space r @ x # t"
    using assms by (metis takeWhile_dropWhile_id)
  moreover have "list_all is_space (takeWhile is_space r)"
    by (auto simp: list_all_iff dest: set_takeWhileD)
  moreover have "\<not> is_space x"
    using assms hd_dropWhile [of is_space r] by force
  ultimately show thesis by (rule that)
qed


lemma match_word_pair_cases:
  assumes "match_word_pair U s = Some (out, t)"
  obtains w1 ws1 ws2 w2 where "s = w1 # ws1 @ REPLACEMENT_CHAR # ws2 @ w2 # t"
    "out = [w1, SPACE, EM_DASH, SPACE, w2]" "is_word U w1" "is_word U w2"
    "list_all is_space ws1" "list_all is_space ws2"
proof -
  obtain w1 r where s: "s = w1 # r" and w1: "is_word U w1"
    using assms by (cases s) (auto simp: match_word_pair_def split: if_splits)
  obtain r2 where d1: "dropWhile is_space r = REPLACEMENT_CHAR # r2"
    using assms w1 unfolding s
    by (auto simp: match_word_pair_def split: list.splits if_splits)
  obtain w2 where d2: "dropWhile is_space r2 = w2 # t" and w2: "is_word U w2"
    and o: "out = [w1, SPACE, EM_DASH, SPACE, w2]"
    using assms w1 d1 unfolding s
    by (auto simp: match_word_pair_def split: list.splits if_splits)
  from d1 obtain ws1 where r: "r = ws1 @ REPLACEMENT_CHAR # r2" and s1: "list_all is_space ws1"
    by (rule spaces_then)
  from d2 obtain ws2 where r2: "r2 = ws2 @ w2 # t" and s2: "list_all is_space ws2"
    by (rule spaces_then)
  have "s = w1 # ws1 @ REPLACEMENT_CHAR # ws2 @ w2 # t" unfolding s r r2 ..
  then show thesis using o w1 w2 s1 s2 by (rule that)
qed



subsection \<open>The characters a substitution can add\<close>








subsection \<open>No marker is left behind\<close>





subsection \<open>Text without tags and table rows\<close>





subsection \<open>Substitution in a text of two parts\<close>

lemma dropWhile_stop: "\<not> P c \<Longrightarrow> dropWhile P (q @ c # r) = dropWhile P q @ c # r"
  by (induction q) auto

lemma takeWhile_stop: "\<not> P c \<Longrightarrow> takeWhile P (q @ c # r) = takeWhile P q"
  by (induction q) auto

lemma re_sub_hit:
  "m (c # cs) = Some (out, rest) \<Longrightarrow> length rest \<le> length cs \<Longrightarrow>
     re_sub m (c # cs) = out @ re_sub m rest"
  by simp

lemma re_sub_miss: "m (c # cs) = None \<Longrightarrow> re_sub m (c # cs) = c # re_sub m cs"
  by simp

text \<open>
  When what follows does not change what the pattern finds in the first part, the
  substitution works on the two parts one after the other.
\<close>

lemma re_sub_append:
  assumes "\<And>s. s \<noteq> [] \<Longrightarrow> m (s @ rest) = map_option (\<lambda>(out, t). (out, t @ rest)) (m s)"
  shows "re_sub m (p @ rest) = re_sub m p @ re_sub m rest"
proof (induction "length p" arbitrary: p rule: less_induct)
  case less
  show ?case
  proof (cases p)
    case Nil
    then show ?thesis by simp
  next
    case (Cons c cs)
    have loc: "m ((c # cs) @ rest) = map_option (\<lambda>(out, t). (out, t @ rest)) (m (c # cs))"
      by (rule assms) simp
    have i: "re_sub m (cs @ rest) = re_sub m cs @ re_sub m rest"
      using less [of cs] Cons by simp
    show ?thesis
    proof (cases "m (c # cs)")
      case None
      then have "m (c # (cs @ rest)) = None" using loc by simp
      then show ?thesis using None i Cons by simp
    next
      case (Some a)
      then obtain out t where a: "m (c # cs) = Some (out, t)" by (cases a) auto
      then have b: "m (c # (cs @ rest)) = Some (out, t @ rest)" using loc by simp
      show ?thesis
      proof (cases "length t \<le> length cs")
        case True
        then have "re_sub m (t @ rest) = re_sub m t @ re_sub m rest"
          using less [of t] Cons by simp
        then show ?thesis using a b True Cons by simp
      next
        case False
        then show ?thesis using a b i Cons by simp
      qed
    qed
  qed
qed

subsection \<open>The word-pair pattern before a word character\<close>

lemma pending_pairE:
  assumes "pending_pair U s"
  obtains w q r2 where "s = w # q" "is_word U w" "dropWhile is_space q = REPLACEMENT_CHAR # r2"
    "dropWhile is_space r2 = []"
proof -
  obtain w q where s: "s = w # q" using assms by (cases s) (auto simp: pending_pair_def)
  have w: "is_word U w" using assms unfolding s pending_pair_def by simp
  have "dropWhile is_space q \<noteq> []"
  proof
    assume e: "dropWhile is_space q = []"
    show False using assms unfolding s pending_pair_def list.case e by simp
  qed
  then obtain y r2 where d: "dropWhile is_space q = y # r2" by (cases "dropWhile is_space q") auto
  have "y = REPLACEMENT_CHAR \<and> dropWhile is_space r2 = []"
    using assms unfolding s pending_pair_def list.case d by simp
  then show thesis using that [OF s w] d by simp
qed

lemma pending_pair_no_match: "pending_pair U s \<Longrightarrow> match_word_pair U s = None"
proof -
  assume "pending_pair U s"
  then obtain w q r2 where s: "s = w # q" and d: "dropWhile is_space q = REPLACEMENT_CHAR # r2"
    "dropWhile is_space r2 = []"
    by (rule pending_pairE)
  show ?thesis unfolding s match_word_pair_def list.case d by simp
qed

lemma match_word_pair_before_word:
  assumes "is_word U c" and "s \<noteq> []"
  shows "match_word_pair U (s @ c # r) =
           (if pending_pair U s then Some ([hd s, SPACE, EM_DASH, SPACE, c], r)
            else map_option (\<lambda>(out, t). (out, t @ c # r)) (match_word_pair U s))"
proof -
  obtain w q where s: "s = w # q" using assms(2) by (cases s) auto
  note c = word_facts(1,2) [OF assms(1)]
  have d: "dropWhile is_space (x @ c # r) = dropWhile is_space x @ c # r" for x
    using c(1) by (rule dropWhile_stop)
  show ?thesis
  proof (cases "dropWhile is_space q")
    case Nil
    show ?thesis
      unfolding s match_word_pair_def pending_pair_def append_Cons list.case d Nil
      using c(2) by simp
  next
    case q: (Cons y r2)
    show ?thesis
    proof (cases "dropWhile is_space r2")
      case Nil
      show ?thesis
        unfolding s match_word_pair_def pending_pair_def append_Cons list.case d q Nil
        using assms(1) by simp
    next
      case (Cons w2 t)
      show ?thesis
        unfolding s match_word_pair_def pending_pair_def append_Cons list.case d q Cons
        by simp
    qed
  qed
qed

lemma match_word_pair_shorter:
  "match_word_pair U (c # cs) = Some (out, t) \<Longrightarrow> length t \<le> length cs"
proof -
  assume "match_word_pair U (c # cs) = Some (out, t)"
  then obtain w1 ws1 ws2 w2 where s: "c # cs = w1 # ws1 @ REPLACEMENT_CHAR # ws2 @ w2 # t"
    by (rule match_word_pair_cases)
  have "length (c # cs) = 1 + length ws1 + 1 + length ws2 + 1 + length t"
    unfolding s by simp
  then show ?thesis by simp
qed

lemma word_pair_single: "re_sub (match_word_pair U) [c] = [c]"
  by (simp add: match_word_pair_def)

lemma no_word_no_pair:
  assumes "\<And>x. x \<in> set q \<Longrightarrow> \<not> is_word U x"
  shows "re_sub (match_word_pair U) q = q"
proof (rule re_sub_noop)
  fix s assume "set s \<subseteq> set q"
  then show "match_word_pair U s = None"
    using assms by (cases s) (auto simp: match_word_pair_def)
qed

lemma pending_pair_kept:
  assumes "pending_pair U p"
  shows "re_sub (match_word_pair U) p = p"
proof -
  from assms obtain w q r2 where p: "p = w # q" and d: "dropWhile is_space q = REPLACEMENT_CHAR # r2"
    "dropWhile is_space r2 = []"
    by (rule pending_pairE)
  from d(1) obtain ws where q: "q = ws @ REPLACEMENT_CHAR # r2" and ws: "list_all is_space ws"
    by (rule spaces_then)
  have r2: "\<And>x. x \<in> set r2 \<Longrightarrow> is_space x"
    using d(2) by (simp add: dropWhile_eq_Nil_conv)
  have "\<not> is_word U x" if "x \<in> set q" for x
  proof -
    have "is_space x \<or> x = REPLACEMENT_CHAR"
      using that ws r2 unfolding q by (auto simp: list_all_iff)
    then show ?thesis
      using space_facts(10) [of x U] by (auto simp: is_word_def symbol_or_space_def)
  qed
  then have "re_sub (match_word_pair U) q = q" by (rule no_word_no_pair)
  moreover have "match_word_pair U (w # q) = None"
    using assms unfolding p by (rule pending_pair_no_match)
  ultimately show ?thesis unfolding p by simp
qed

lemma pending_pair_marker: "pending_pair U p \<Longrightarrow> REPLACEMENT_CHAR \<in> set p"
proof -
  assume "pending_pair U p"
  then obtain w q r2 where p: "p = w # q" and d: "dropWhile is_space q = REPLACEMENT_CHAR # r2"
    by (rule pending_pairE)
  have "REPLACEMENT_CHAR \<in> set q" using d by (rule dropWhile_Cons_mem)
  then show ?thesis unfolding p by simp
qed

lemma boundary_free_lift:
  fixes W :: "ustr \<Rightarrow> ustr"
  assumes s1: "\<And>r. W (p @ c # r) = o' @ W (t @ c # r)" and s2: "W p = o' @ W t"
    and f: "W (t @ [c]) = W t @ [c] \<and> (\<forall>r. W (t @ c # r) = W t @ W (c # r))"
  shows "W (p @ [c]) = W p @ [c] \<and> (\<forall>r. W (p @ c # r) = W p @ W (c # r))"
proof
  from f have f1: "W (t @ [c]) = W t @ [c]" by (rule conjunct1)
  have "W (p @ [c]) = o' @ W (t @ [c])" by (rule s1)
  then show "W (p @ [c]) = W p @ [c]" unfolding s2 f1 by simp
  show "\<forall>r. W (p @ c # r) = W p @ W (c # r)"
  proof
    fix r
    have "W (p @ c # r) = o' @ W (t @ c # r)" by (rule s1)
    also have "W (t @ c # r) = W t @ W (c # r)" using f by blast
    finally show "W (p @ c # r) = W p @ W (c # r)" unfolding s2 by simp
  qed
qed

lemma boundary_taken_lift:
  fixes W :: "ustr \<Rightarrow> ustr"
  assumes s1: "\<And>r. W (p @ c # r) = o' @ W (t @ c # r)" and s2: "W p = o' @ W t"
    and f: "W (t @ [c]) \<noteq> W t @ [c] \<and> (\<exists>Q. W (t @ [c]) = Q @ [c]) \<and>
            (\<forall>r. W (t @ c # r) = W (t @ [c]) @ W r)"
  shows "W (p @ [c]) \<noteq> W p @ [c] \<and> (\<exists>Q. W (p @ [c]) = Q @ [c]) \<and>
         (\<forall>r. W (p @ c # r) = W (p @ [c]) @ W r)"
proof (intro conjI)
  have e: "W (p @ [c]) = o' @ W (t @ [c])" by (rule s1)
  from f have f1: "W (t @ [c]) \<noteq> W t @ [c]" by (rule conjunct1)
  show "W (p @ [c]) \<noteq> W p @ [c]" unfolding e s2 using f1 by simp
  obtain Q where "W (t @ [c]) = Q @ [c]" using f by blast
  then have "W (p @ [c]) = (o' @ Q) @ [c]" unfolding e by simp
  then show "\<exists>Q. W (p @ [c]) = Q @ [c]" by (rule exI)
  show "\<forall>r. W (p @ c # r) = W (p @ [c]) @ W r"
  proof
    fix r
    have "W (p @ c # r) = o' @ W (t @ c # r)" by (rule s1)
    also have "W (t @ c # r) = W (t @ [c]) @ W r" using f by blast
    finally show "W (p @ c # r) = W (p @ [c]) @ W r" unfolding e by simp
  qed
qed

text \<open>
  The word-pair pattern in front of a word character \<open>c\<close>: either no match reaches
  \<open>c\<close>, and the substitution goes on at \<open>c\<close>; or \<open>c\<close> is the right end of a match, and
  the substitution goes on behind \<open>c\<close>.
\<close>

lemma word_pairs_before_word:
  assumes "is_word U c"
  shows "(re_sub (match_word_pair U) (p @ [c]) = re_sub (match_word_pair U) p @ [c] \<and>
          (\<forall>r. re_sub (match_word_pair U) (p @ c # r) =
                 re_sub (match_word_pair U) p @ re_sub (match_word_pair U) (c # r))) \<or>
         (re_sub (match_word_pair U) (p @ [c]) \<noteq> re_sub (match_word_pair U) p @ [c] \<and>
          (\<exists>Q. re_sub (match_word_pair U) (p @ [c]) = Q @ [c]) \<and>
          (\<forall>r. re_sub (match_word_pair U) (p @ c # r) =
                 re_sub (match_word_pair U) (p @ [c]) @ re_sub (match_word_pair U) r))"
    (is "?free p \<or> ?taken p")
proof (induction "length p" arbitrary: p rule: less_induct)
  case less
  let ?W = "re_sub (match_word_pair U)"
  show ?case
  proof (cases p)
    case Nil
    have "?free []" by (simp add: match_word_pair_def)
    then show ?thesis unfolding Nil ..
  next
    case (Cons x xs)
    have m: "match_word_pair U ((x # xs) @ c # r) =
               (if pending_pair U (x # xs) then Some ([x, SPACE, EM_DASH, SPACE, c], r)
                else map_option (\<lambda>(out, t). (out, t @ c # r)) (match_word_pair U (x # xs)))" for r
      using match_word_pair_before_word [OF assms, of "x # xs" r] by simp
    show ?thesis
    proof (cases "pending_pair U (x # xs)")
      case True
      have h: "?W ((x # xs) @ c # r) = [x, SPACE, EM_DASH, SPACE, c] @ ?W r" for r
      proof -
        have "match_word_pair U (x # (xs @ c # r)) = Some ([x, SPACE, EM_DASH, SPACE, c], r)"
          using m [of r] True by simp
        then show ?thesis by (simp add: re_sub_hit)
      qed
      have k: "?W (x # xs) = x # xs" using True by (rule pending_pair_kept)
      have e: "?W ((x # xs) @ [c]) = [x, SPACE, EM_DASH, SPACE, c]"
        using h [of "[]"] by (simp del: re_sub.simps add: re_sub.simps(1))
      have n: "x # xs @ [c] \<noteq> [x, SPACE, EM_DASH, SPACE, c]"
      proof
        assume "x # xs @ [c] = [x, SPACE, EM_DASH, SPACE, c]"
        then have "xs = [SPACE, EM_DASH, SPACE]" by simp
        then have "REPLACEMENT_CHAR \<notin> set (x # xs)"
          using word_facts(2) [of U x] True by (auto simp: pending_pair_def)
        then show False using pending_pair_marker [OF True] by simp
      qed
      have "?taken (x # xs)"
      proof (intro conjI)
        show "?W ((x # xs) @ [c]) \<noteq> ?W (x # xs) @ [c]" unfolding e k using n by simp
        have "?W ((x # xs) @ [c]) = [x, SPACE, EM_DASH, SPACE] @ [c]" unfolding e by simp
        then show "\<exists>Q. ?W ((x # xs) @ [c]) = Q @ [c]" by (rule exI)
        show "\<forall>r. ?W ((x # xs) @ c # r) = ?W ((x # xs) @ [c]) @ ?W r"
          unfolding e using h by blast
      qed
      then show ?thesis unfolding Cons ..
    next
      case False
      then have m': "match_word_pair U ((x # xs) @ c # r) =
                      map_option (\<lambda>(out, t). (out, t @ c # r)) (match_word_pair U (x # xs))" for r
        using m [of r] by simp
      show ?thesis
      proof (cases "match_word_pair U (x # xs)")
        case None
        then have n: "match_word_pair U (x # (xs @ c # r)) = None" for r using m' [of r] by simp
        have s1: "?W ((x # xs) @ c # r) = [x] @ ?W (xs @ c # r)" for r using n [of r] by simp
        have s2: "?W (x # xs) = [x] @ ?W xs" using None by simp
        have "?free xs \<or> ?taken xs" using less [of xs] Cons by simp
        then show ?thesis
        proof
          assume "?free xs"
          with s1 s2 have "?free (x # xs)" by (rule boundary_free_lift)
          then show ?thesis unfolding Cons ..
        next
          assume "?taken xs"
          with s1 s2 have "?taken (x # xs)" by (rule boundary_taken_lift)
          then show ?thesis unfolding Cons ..
        qed
      next
        case (Some a)
        then obtain out t where a: "match_word_pair U (x # xs) = Some (out, t)" by (cases a) auto
        have l: "length t \<le> length xs" using a by (rule match_word_pair_shorter)
        have b: "match_word_pair U (x # (xs @ c # r)) = Some (out, t @ c # r)" for r
          using m' [of r] a by simp
        have s1: "?W ((x # xs) @ c # r) = out @ ?W (t @ c # r)" for r
          using b [of r] l by (simp add: re_sub_hit)
        have s2: "?W (x # xs) = out @ ?W t" using a l by simp
        have "?free t \<or> ?taken t" using less [of t] l Cons by simp
        then show ?thesis
        proof
          assume "?free t"
          with s1 s2 have "?free (x # xs)" by (rule boundary_free_lift)
          then show ?thesis unfolding Cons ..
        next
          assume "?taken t"
          with s1 s2 have "?taken (x # xs)" by (rule boundary_taken_lift)
          then show ?thesis unfolding Cons ..
        qed
      qed
    qed
  qed
qed

subsection \<open>The digit pattern and the fallback pattern before a character that stops them\<close>

lemma match_digit_marker_stop:
  assumes "\<not> is_space c" and "c \<noteq> REPLACEMENT_CHAR" and "s \<noteq> []"
  shows "match_digit_marker U (s @ c # r) =
           map_option (\<lambda>(out, t). (out, t @ c # r)) (match_digit_marker U s)"
proof -
  obtain d q where s: "s = d # q" using assms(3) by (cases s) auto
  have d: "dropWhile is_space (x @ c # r) = dropWhile is_space x @ c # r" for x
    using assms(1) by (rule dropWhile_stop)
  show ?thesis
  proof (cases "dropWhile is_space q")
    case Nil
    show ?thesis
      unfolding s match_digit_marker_def append_Cons list.case d Nil
      using assms(2) by simp
  next
    case (Cons y r2)
    show ?thesis
      unfolding s match_digit_marker_def append_Cons list.case d Cons
      by (simp add: d)
  qed
qed

lemma match_marker_stop:
  assumes "\<not> is_space c" and "c \<noteq> REPLACEMENT_CHAR"
  shows "match_marker (s @ c # r) = map_option (\<lambda>(out, t). (out, t @ c # r)) (match_marker s)"
proof -
  have d: "dropWhile is_space (x @ c # r) = dropWhile is_space x @ c # r" for x
    using assms(1) by (rule dropWhile_stop)
  show ?thesis
  proof (cases "dropWhile is_space s")
    case Nil
    show ?thesis
      unfolding match_marker_def d Nil using assms(2) by simp
  next
    case (Cons y r2)
    show ?thesis
      unfolding match_marker_def d Cons by (simp add: d)
  qed
qed

lemma digit_markers_append:
  "\<not> is_space c \<Longrightarrow> c \<noteq> REPLACEMENT_CHAR \<Longrightarrow>
     re_sub (match_digit_marker U) (p @ c # r) =
       re_sub (match_digit_marker U) p @ re_sub (match_digit_marker U) (c # r)"
  by (rule re_sub_append) (rule match_digit_marker_stop)

lemma markers_append:
  "\<not> is_space c \<Longrightarrow> c \<noteq> REPLACEMENT_CHAR \<Longrightarrow>
     re_sub match_marker (p @ c # r) = re_sub match_marker p @ re_sub match_marker (c # r)"
  by (rule re_sub_append) (rule match_marker_stop)

lemma marker_skips: "\<not> is_space c \<Longrightarrow> c \<noteq> REPLACEMENT_CHAR \<Longrightarrow>
    re_sub match_marker (c # r) = c # re_sub match_marker r"
  by (simp add: match_marker_def)

lemma word_pair_head: "\<exists>t. re_sub (match_word_pair U) (c # r) = c # t"
proof (cases "match_word_pair U (c # r)")
  case None
  then show ?thesis by simp
next
  case (Some a)
  then obtain out t where a: "match_word_pair U (c # r) = Some (out, t)" by (cases a) auto
  then obtain w1 ws1 ws2 w2 where "c # r = w1 # ws1 @ REPLACEMENT_CHAR # ws2 @ w2 # t"
    "out = [w1, SPACE, EM_DASH, SPACE, w2]"
    by (rule match_word_pair_cases)
  then have "out = c # [SPACE, EM_DASH, SPACE, w2]" by simp
  then show ?thesis using a by auto
qed

lemma match_marker_hit:
  assumes "list_all is_space ws1" "list_all is_space ws2" "\<not> is_space y"
  shows "match_marker (ws1 @ REPLACEMENT_CHAR # ws2 @ y # r) = Some ([SPACE, EM_DASH, SPACE], y # r)"
proof -
  have 1: "dropWhile is_space (ws1 @ REPLACEMENT_CHAR # ws2 @ y # r) = REPLACEMENT_CHAR # ws2 @ y # r"
    using assms(1) by (simp add: dropWhile_append list_all_iff is_space_def)
  have 2: "dropWhile is_space (ws2 @ y # r) = y # r"
    using assms(2,3) by (simp add: dropWhile_append list_all_iff)
  show ?thesis by (simp add: match_marker_def 1 2)
qed

lemma match_digit_marker_hit:
  assumes "is_digit U d" "list_all is_space ws1" "list_all is_space ws2" "\<not> is_space y"
  shows "match_digit_marker U (d # ws1 @ REPLACEMENT_CHAR # ws2 @ y # r) = Some ([d, EURO, SPACE], y # r)"
proof -
  have 1: "dropWhile is_space (ws1 @ REPLACEMENT_CHAR # ws2 @ y # r) = REPLACEMENT_CHAR # ws2 @ y # r"
    using assms(2) by (simp add: dropWhile_append list_all_iff is_space_def)
  have 2: "dropWhile is_space (ws2 @ y # r) = y # r"
    using assms(3,4) by (simp add: dropWhile_append list_all_iff)
  show ?thesis using assms(1) by (simp add: match_digit_marker_def 1 2)
qed

lemma re_sub_at_match:
  "s \<noteq> [] \<Longrightarrow> m s = Some (out, rest) \<Longrightarrow> length rest < length s \<Longrightarrow>
     re_sub m s = out @ re_sub m rest"
  by (cases s) auto

subsection \<open>Rule 2 at a marker between two word characters\<close>

lemma rule2_left:
  assumes "re_sub (match_word_pair U) (P @ [w1]) = Q @ [w1]" and "is_word U w1"
  shows "fix_replacement_char U (P @ [w1]) =
           re_sub match_marker (re_sub (match_digit_marker U) Q) @ [w1]"
proof -
  note w = word_facts(1,2) [OF assms(2)]
  have "re_sub (match_digit_marker U) (Q @ [w1]) =
          re_sub (match_digit_marker U) Q @ re_sub (match_digit_marker U) [w1]"
    using w by (rule digit_markers_append)
  then have d: "re_sub (match_digit_marker U) (Q @ [w1]) = re_sub (match_digit_marker U) Q @ [w1]"
    by (simp add: match_digit_marker_def)
  have "re_sub match_marker (re_sub (match_digit_marker U) Q @ [w1]) =
          re_sub match_marker (re_sub (match_digit_marker U) Q) @ re_sub match_marker [w1]"
    using w by (rule markers_append)
  then have "re_sub match_marker (re_sub (match_digit_marker U) Q @ [w1]) =
          re_sub match_marker (re_sub (match_digit_marker U) Q) @ [w1]"
    using w by (simp add: match_marker_def)
  then show ?thesis unfolding fix_replacement_char_def assms(1) d .
qed

lemma rule2_right:
  assumes "is_word U w1"
    and "re_sub (match_digit_marker U) (w1 # tail) = w1 # dt"
  shows "re_sub match_marker (re_sub (match_digit_marker U) (Q @ w1 # tail)) =
           re_sub match_marker (re_sub (match_digit_marker U) Q) @ w1 # re_sub match_marker dt"
proof -
  note w = word_facts(1,2) [OF assms(1)]
  have "re_sub (match_digit_marker U) (Q @ w1 # tail) =
          re_sub (match_digit_marker U) Q @ re_sub (match_digit_marker U) (w1 # tail)"
    using w by (rule digit_markers_append)
  then have d: "re_sub (match_digit_marker U) (Q @ w1 # tail) = re_sub (match_digit_marker U) Q @ w1 # dt"
    unfolding assms(2) .
  have "re_sub match_marker (re_sub (match_digit_marker U) Q @ w1 # dt) =
          re_sub match_marker (re_sub (match_digit_marker U) Q) @ re_sub match_marker (w1 # dt)"
    using w by (rule markers_append)
  then show ?thesis unfolding d marker_skips [OF w] .
qed

lemma re_sub_skip_chars:
  "(\<And>x s. x \<in> set pre \<Longrightarrow> m (x # s) = None) \<Longrightarrow> re_sub m (pre @ rest) = pre @ re_sub m rest"
  by (induction pre) auto

lemma gap_chars:
  assumes "list_all is_space ws1" "list_all is_space ws2" "x \<in> set (ws1 @ REPLACEMENT_CHAR # ws2)"
  shows "\<not> is_word U x" "\<not> is_digit U x"
proof -
  have "is_space x \<or> x = REPLACEMENT_CHAR" using assms by (auto simp: list_all_iff)
  then show "\<not> is_word U x" "\<not> is_digit U x"
    using space_facts(9,10) [of x U]
    by (auto simp: is_word_def is_digit_def symbol_or_space_def)
qed

lemma dash_gap:
  assumes "is_word U w2"
  shows "re_sub (match_digit_marker U) ([w1, SPACE, EM_DASH, SPACE] @ w2 # r) =
           [w1, SPACE, EM_DASH, SPACE] @ re_sub (match_digit_marker U) (w2 # r)"
    and "re_sub match_marker ([SPACE, EM_DASH, SPACE] @ w2 # r) =
           [SPACE, EM_DASH, SPACE] @ re_sub match_marker (w2 # r)"
proof -
  note w2 = word_facts(1,2) [OF assms]
  show "re_sub (match_digit_marker U) ([w1, SPACE, EM_DASH, SPACE] @ w2 # r) =
           [w1, SPACE, EM_DASH, SPACE] @ re_sub (match_digit_marker U) (w2 # r)"
  proof (rule re_sub_skip_prefix)
    fix a b
    assume "[w1, SPACE, EM_DASH, SPACE] = a @ b" "b \<noteq> []"
    then obtain c q where b: "b = c # q" and "set q \<subseteq> {SPACE, EM_DASH}"
      by (cases b) (auto simp: append_eq_Cons_conv Cons_eq_append_conv)
    then have "REPLACEMENT_CHAR \<notin> set q" by auto
    then show "match_digit_marker U (b @ w2 # r) = None"
      unfolding b using w2 by (simp add: match_digit_marker_blocked)
  qed
  show "re_sub match_marker ([SPACE, EM_DASH, SPACE] @ w2 # r) =
           [SPACE, EM_DASH, SPACE] @ re_sub match_marker (w2 # r)"
  proof (rule re_sub_skip_prefix)
    fix a b
    assume "[SPACE, EM_DASH, SPACE] = a @ b" "b \<noteq> []"
    then have "set b \<subseteq> {SPACE, EM_DASH}"
      by (auto simp: append_eq_Cons_conv Cons_eq_append_conv)
    then have "REPLACEMENT_CHAR \<notin> set b" by auto
    then show "match_marker (b @ w2 # r) = None"
      using w2 by (simp add: match_marker_blocked)
  qed
qed

text \<open>
  What rule 2 makes of a marker between the word characters \<open>w1\<close> and \<open>w2\<close>, in any
  text. The text up to \<open>w1\<close> is rewritten as it would be on its own. The marker and the
  white space around it become a spaced em dash, unless \<open>w1\<close> is a digit and the
  right end of an earlier match of the word-pair pattern: then they become the euro sign
  and a space.
\<close>

lemma marker_rule2:
  assumes "is_word U w1" "is_word U w2" "list_all is_space ws1" "list_all is_space ws2"
  shows "\<exists>L Y. fix_replacement_char U (P @ [w1]) = L @ [w1] \<and>
           fix_replacement_char U (P @ w1 # ws1 @ REPLACEMENT_CHAR # ws2 @ w2 # post) =
             L @ w1 #
             (if is_digit U w1 \<and>
                 re_sub (match_word_pair U) (P @ [w1]) \<noteq> re_sub (match_word_pair U) P @ [w1]
              then [EURO, SPACE] else [SPACE, EM_DASH, SPACE]) @ w2 # Y"
proof -
  let ?W = "re_sub (match_word_pair U)" and ?D = "re_sub (match_digit_marker U)"
    and ?M = "re_sub match_marker"
  let ?gap = "ws1 @ REPLACEMENT_CHAR # ws2"
  let ?hit = "w1 # ?gap @ w2 # post"
  note w1 = word_facts(1,2) [OF assms(1)] and w2 = word_facts(1,2) [OF assms(2)]
  have whole: "P @ w1 # ws1 @ REPLACEMENT_CHAR # ws2 @ w2 # post = P @ ?hit" by simp
  consider
    (free) "?W (P @ [w1]) = ?W P @ [w1]" "\<And>r. ?W (P @ w1 # r) = ?W P @ ?W (w1 # r)"
  | (taken) Q where "?W (P @ [w1]) \<noteq> ?W P @ [w1]" "?W (P @ [w1]) = Q @ [w1]"
      "\<And>r. ?W (P @ w1 # r) = ?W (P @ [w1]) @ ?W r"
    using word_pairs_before_word [OF assms(1), of P] by blast
  then show ?thesis
  proof cases
    case free
    have "match_word_pair U ?hit = Some ([w1, SPACE, EM_DASH, SPACE, w2], post)"
      using match_word_pair_hit [OF assms, of post] by simp
    then have "?W ?hit = [w1, SPACE, EM_DASH, SPACE, w2] @ ?W post"
      by (simp add: re_sub_hit)
    then have T: "?W (P @ ?hit) = ?W P @ w1 # ([SPACE, EM_DASH, SPACE] @ w2 # ?W post)"
      using free(2) [of "?gap @ w2 # post"] by simp
    obtain d2 where d2: "?D (w2 # ?W post) = w2 # d2"
      using re_sub_digit_marker_head by blast
    have "?D ([w1, SPACE, EM_DASH, SPACE] @ w2 # ?W post) = [w1, SPACE, EM_DASH, SPACE] @ ?D (w2 # ?W post)"
      using assms(2) by (rule dash_gap(1))
    then have dt: "?D (w1 # ([SPACE, EM_DASH, SPACE] @ w2 # ?W post)) = w1 # ([SPACE, EM_DASH, SPACE] @ w2 # d2)"
      unfolding d2 by simp
    have "?M ([SPACE, EM_DASH, SPACE] @ w2 # d2) = [SPACE, EM_DASH, SPACE] @ ?M (w2 # d2)"
      using assms(2) by (rule dash_gap(2))
    then have mt: "?M ([SPACE, EM_DASH, SPACE] @ w2 # d2) = [SPACE, EM_DASH, SPACE] @ w2 # ?M d2"
      unfolding marker_skips [OF w2] .
    have l: "fix_replacement_char U (P @ [w1]) = ?M (?D (?W P)) @ [w1]"
      using free(1) assms(1) by (rule rule2_left)
    have "fix_replacement_char U (P @ ?hit) =
            ?M (?D (?W P)) @ w1 # ?M ([SPACE, EM_DASH, SPACE] @ w2 # d2)"
      unfolding fix_replacement_char_def T using assms(1) dt by (rule rule2_right)
    then have r: "fix_replacement_char U (P @ ?hit) =
            ?M (?D (?W P)) @ w1 # [SPACE, EM_DASH, SPACE] @ w2 # ?M d2"
      unfolding mt .
    have c: "\<not> (is_digit U w1 \<and> ?W (P @ [w1]) \<noteq> ?W P @ [w1])" using free(1) by simp
    show ?thesis
      unfolding whole using l r c by (intro exI [of _ "?M (?D (?W P))"] exI [of _ "?M d2"]) simp
  next
    case (taken Q)
    have "?W (?gap @ w2 # post) = ?gap @ ?W (w2 # post)"
    proof (rule re_sub_skip_chars)
      fix x s assume "x \<in> set ?gap"
      then have "\<not> is_word U x" using gap_chars(1) [OF assms(3,4)] by blast
      then show "match_word_pair U (x # s) = None" by (simp add: match_word_pair_def)
    qed
    moreover obtain z where z: "?W (w2 # post) = w2 # z" using word_pair_head by blast
    ultimately have "?W (P @ ?hit) = (Q @ [w1]) @ ?gap @ w2 # z"
      using taken(3) [of "?gap @ w2 # post"] unfolding taken(2) by simp
    then have T: "?W (P @ ?hit) = Q @ w1 # (?gap @ w2 # z)" by simp
    obtain d2 where d2: "?D (w2 # z) = w2 # d2"
      using re_sub_digit_marker_head by blast
    have l: "fix_replacement_char U (P @ [w1]) = ?M (?D Q) @ [w1]"
      using taken(2) assms(1) by (rule rule2_left)
    show ?thesis
    proof (cases "is_digit U w1")
      case True
      have "match_digit_marker U (w1 # ?gap @ w2 # z) = Some ([w1, EURO, SPACE], w2 # z)"
        using True assms(3,4) w2(1) by (simp add: match_digit_marker_hit)
      then have dt: "?D (w1 # (?gap @ w2 # z)) = w1 # ([EURO, SPACE] @ w2 # d2)"
        using d2 by (simp add: re_sub_hit)
      have "?M ([EURO, SPACE] @ w2 # d2) = [EURO, SPACE] @ ?M (w2 # d2)"
      proof (rule re_sub_skip_prefix)
        fix a b
        assume "[EURO, SPACE] = a @ b" "b \<noteq> []"
        then have "set b \<subseteq> {EURO, SPACE}"
          by (auto simp: append_eq_Cons_conv Cons_eq_append_conv)
        then have "REPLACEMENT_CHAR \<notin> set b" by auto
        then show "match_marker (b @ w2 # d2) = None"
          using w2 by (simp add: match_marker_blocked)
      qed
      then have mt: "?M ([EURO, SPACE] @ w2 # d2) = [EURO, SPACE] @ w2 # ?M d2"
        unfolding marker_skips [OF w2] .
      have "fix_replacement_char U (P @ ?hit) = ?M (?D Q) @ w1 # ?M ([EURO, SPACE] @ w2 # d2)"
        unfolding fix_replacement_char_def T using assms(1) dt by (rule rule2_right)
      then have r: "fix_replacement_char U (P @ ?hit) = ?M (?D Q) @ w1 # [EURO, SPACE] @ w2 # ?M d2"
        unfolding mt .
      show ?thesis
        unfolding whole using l r True taken(1)
        by (intro exI [of _ "?M (?D Q)"] exI [of _ "?M d2"]) simp
    next
      case False
      have "?D ((w1 # ?gap) @ w2 # z) = (w1 # ?gap) @ ?D (w2 # z)"
      proof (rule re_sub_skip_chars)
        fix x s assume "x \<in> set (w1 # ?gap)"
        then have "\<not> is_digit U x" using False gap_chars(2) [OF assms(3,4)] by auto
        then show "match_digit_marker U (x # s) = None" by (simp add: match_digit_marker_def)
      qed
      then have dt: "?D (w1 # (?gap @ w2 # z)) = w1 # (?gap @ w2 # d2)"
        unfolding d2 by simp
      have "match_marker (?gap @ w2 # d2) = Some ([SPACE, EM_DASH, SPACE], w2 # d2)"
        using assms(3,4) w2(1) by (simp add: match_marker_hit)
      then have "?M (?gap @ w2 # d2) = [SPACE, EM_DASH, SPACE] @ ?M (w2 # d2)"
        by (rule re_sub_at_match [rotated]) simp_all
      then have mt: "?M (?gap @ w2 # d2) = [SPACE, EM_DASH, SPACE] @ w2 # ?M d2"
        unfolding marker_skips [OF w2] .
      have "fix_replacement_char U (P @ ?hit) = ?M (?D Q) @ w1 # ?M (?gap @ w2 # d2)"
        unfolding fix_replacement_char_def T using assms(1) dt by (rule rule2_right)
      then have r: "fix_replacement_char U (P @ ?hit) = ?M (?D Q) @ w1 # [SPACE, EM_DASH, SPACE] @ w2 # ?M d2"
        unfolding mt .
      show ?thesis
        unfolding whole using l r False
        by (intro exI [of _ "?M (?D Q)"] exI [of _ "?M d2"]) simp
    qed
  qed
qed

subsection \<open>Rule 1 around a marker between two word characters\<close>

lemma close_tag_before_word:
  assumes "is_word U w"
  shows "close_tag (q @ w # rest) = map_option (\<lambda>t. t @ w # rest) (close_tag q)"
proof -
  have w: "w \<noteq> 47" "w \<noteq> 62" using assms by (auto simp: is_word_def)
  show ?thesis
  proof (cases q)
    case Nil
    then show ?thesis using w by (simp add: close_tag_def)
  next
    case (Cons x t)
    then show ?thesis using w by (cases t) (simp_all add: close_tag_def)
  qed
qed

lemma match_br_before_word:
  assumes "is_word U w" and "close_tag (dropWhile is_space rest) = None"
    and "rest = [] \<or> (hd rest \<noteq> 114 \<and> hd rest \<noteq> 82)" and "s \<noteq> []"
  shows "match_br (s @ w # rest) = map_option (\<lambda>(out, t). (out, t @ w # rest)) (match_br s)"
proof -
  have d: "dropWhile is_space (x @ w # rest) = dropWhile is_space x @ w # rest" for x
    using word_facts(1) [OF assms(1)] by (rule dropWhile_stop)
  note ct = close_tag_before_word [OF assms(1)]
  obtain a s1 where s: "s = a # s1" using assms(4) by (cases s) auto
  show ?thesis
  proof (cases s1)
    case Nil
    show ?thesis
    proof (cases rest)
      case Nil
      then show ?thesis unfolding s \<open>s1 = []\<close> by simp
    next
      case (Cons x r)
      then show ?thesis unfolding s \<open>s1 = []\<close> using assms(3) by simp
    qed
  next
    case b: (Cons b s2)
    show ?thesis
    proof (cases s2)
      case Nil
      then show ?thesis unfolding s b using assms(2) by simp
    next
      case (Cons c r')
      show ?thesis
        unfolding s b Cons
        by (cases "close_tag (dropWhile is_space r')") (simp_all add: d ct)
    qed
  qed
qed

lemma match_br_needs_tag: "x \<noteq> 60 \<Longrightarrow> match_br (x # s) = None"
  by (cases "x # s" rule: match_br.cases) auto

lemma html_breaks_before_word:
  assumes "is_word U w" and "close_tag (dropWhile is_space rest) = None"
    and "rest = [] \<or> (hd rest \<noteq> 114 \<and> hd rest \<noteq> 82)"
  shows "html_breaks (p @ w # rest) = html_breaks p @ w # html_breaks rest"
proof -
  have "re_sub match_br (p @ w # rest) = re_sub match_br p @ re_sub match_br (w # rest)"
    by (rule re_sub_append) (rule match_br_before_word [OF assms])
  moreover have "match_br (w # rest) = None"
    using word_facts(4) [OF assms(1)] by (rule match_br_needs_tag)
  ultimately show ?thesis by (simp add: html_breaks_def)
qed

lemma html_breaks_around_marker:
  assumes "is_word U w1" "is_word U w2" "list_all is_space ws1" "list_all is_space ws2"
  shows "html_breaks (pre @ w1 # ws1 @ REPLACEMENT_CHAR # ws2 @ w2 # post) =
           html_breaks pre @ w1 # ws1 @ REPLACEMENT_CHAR # ws2 @ w2 # html_breaks post"
    and "html_breaks (pre @ [w1]) = html_breaks pre @ [w1]"
proof -
  let ?gap = "ws1 @ REPLACEMENT_CHAR # ws2"
  let ?rest = "?gap @ w2 # post"
  have sp: "\<And>x. x \<in> set ws1 \<Longrightarrow> is_space x" using assms(3) by (simp add: list_all_iff)
  have "dropWhile is_space ?rest = REPLACEMENT_CHAR # ws2 @ w2 # post"
    using assms(3) by (simp add: dropWhile_append list_all_iff is_space_def)
  then have 1: "close_tag (dropWhile is_space ?rest) = None"
    by (simp add: close_tag_def)
  have ns: "\<not> is_space 114" "\<not> is_space 82" by (simp_all add: is_space_def)
  have 2: "?rest = [] \<or> (hd ?rest \<noteq> 114 \<and> hd ?rest \<noteq> 82)"
  proof (cases ws1)
    case Nil
    then show ?thesis by simp
  next
    case (Cons x l)
    then have "is_space x" using sp by simp
    then have "x \<noteq> 114 \<and> x \<noteq> 82" using ns by metis
    then show ?thesis using Cons by simp
  qed
  have a: "html_breaks (pre @ w1 # ?rest) = html_breaks pre @ w1 # html_breaks ?rest"
    using assms(1) 1 2 by (rule html_breaks_before_word)
  have "re_sub match_br (?gap @ w2 # post) = ?gap @ re_sub match_br (w2 # post)"
  proof (rule re_sub_skip_chars)
    fix x s assume "x \<in> set ?gap"
    then have "is_space x \<or> x = REPLACEMENT_CHAR" using assms(3,4) by (auto simp: list_all_iff)
    then have "x \<noteq> 60" using space_facts(3) [of x] by auto
    then show "match_br (x # s) = None" by (rule match_br_needs_tag)
  qed
  moreover have "match_br (w2 # post) = None"
    using word_facts(4) [OF assms(2)] by (rule match_br_needs_tag)
  ultimately have b: "html_breaks ?rest = ?gap @ w2 # html_breaks post"
    by (simp add: html_breaks_def)
  show "html_breaks (pre @ w1 # ws1 @ REPLACEMENT_CHAR # ws2 @ w2 # post) =
           html_breaks pre @ w1 # ws1 @ REPLACEMENT_CHAR # ws2 @ w2 # html_breaks post"
    using a b by simp
  have "html_breaks (pre @ w1 # []) = html_breaks pre @ w1 # html_breaks []"
    using assms(1) by (rule html_breaks_before_word) (simp_all add: close_tag_def)
  then show "html_breaks (pre @ [w1]) = html_breaks pre @ [w1]"
    by (simp add: html_breaks_def)
qed

subsection \<open>Rule 3 around a spaced em dash\<close>

lemma list_all2_snocD: "list_all2 P (xs @ [x]) zs \<Longrightarrow> \<exists>us z. zs = us @ [z] \<and> P x z"
  by (auto simp: list_all2_append1 list_all2_Cons1)

lemma list_all2_ConsD: "list_all2 P (x # xs) zs \<Longrightarrow> \<exists>z us. zs = z # us \<and> P x z"
  by (auto simp: list_all2_Cons1)

lemma upper_eur_around_dash:
  "\<exists>E1 a b E2.
     upper_eur U None (L @ w1 # [SPACE, EM_DASH, SPACE] @ w2 # Y) =
       E1 @ a # [SPACE, EM_DASH, SPACE] @ b # E2 \<and>
     same_letter w1 a \<and> same_letter w2 b"
proof -
  have sp: "\<not> is_word U SPACE" "\<not> is_word U EM_DASH"
    by (simp_all add: is_word_def symbol_or_space_def)
  have s1: "upper_eur U None ((L @ [w1]) @ SPACE # (EM_DASH # SPACE # w2 # Y)) =
              upper_eur U None (L @ [w1]) @ SPACE # upper_eur U None (EM_DASH # SPACE # w2 # Y)"
    using sp(1) by (rule upper_eur_split)
  have s2: "upper_eur U None ([] @ EM_DASH # (SPACE # w2 # Y)) =
              upper_eur U None [] @ EM_DASH # upper_eur U None (SPACE # w2 # Y)"
    using sp(2) by (rule upper_eur_split)
  have s3: "upper_eur U None ([] @ SPACE # (w2 # Y)) =
              upper_eur U None [] @ SPACE # upper_eur U None (w2 # Y)"
    using sp(1) by (rule upper_eur_split)
  obtain E1 a where l: "upper_eur U None (L @ [w1]) = E1 @ [a]" and a: "same_letter w1 a"
    using list_all2_snocD [OF upper_eur_same_letters [of "L @ [w1]" U None]] by blast
  obtain b E2 where r: "upper_eur U None (w2 # Y) = b # E2" and b: "same_letter w2 b"
    using list_all2_ConsD [OF upper_eur_same_letters [of "w2 # Y" U None]] by blast
  have "upper_eur U None (L @ w1 # [SPACE, EM_DASH, SPACE] @ w2 # Y) =
          upper_eur U None ((L @ [w1]) @ SPACE # (EM_DASH # SPACE # w2 # Y))"
    by simp
  also have "\<dots> = (E1 @ [a]) @ SPACE # EM_DASH # SPACE # b # E2"
    unfolding s1 l using s2 s3 r by simp
  finally have "upper_eur U None (L @ w1 # [SPACE, EM_DASH, SPACE] @ w2 # Y) =
                  E1 @ a # [SPACE, EM_DASH, SPACE] @ b # E2"
    by simp
  then show ?thesis using a b by blast
qed

lemma euro_tail_stop:
  assumes "\<not> is_space c" and "c \<noteq> EURO"
  shows "euro_tail (q @ c # r) = map_option (\<lambda>t. t @ c # r) (euro_tail q)"
proof -
  have d: "dropWhile is_space (x @ c # r) = dropWhile is_space x @ c # r" for x
    using assms(1) by (rule dropWhile_stop)
  show ?thesis
  proof (cases "dropWhile is_space q")
    case Nil
    show ?thesis unfolding euro_tail_def d Nil using assms(2) by simp
  next
    case (Cons y t)
    show ?thesis unfolding euro_tail_def d Cons by (simp add: d)
  qed
qed

lemma decimal_part_stop:
  assumes "\<not> is_digit U c" and "c \<noteq> 46" and "c \<noteq> 44"
  shows "decimal_part U (q @ c # r) = map_option (\<lambda>(frac, t). (frac, t @ c # r)) (decimal_part U q)"
proof (cases q)
  case Nil
  then show ?thesis using assms(2,3) by (simp add: decimal_part_def)
next
  case (Cons sep r1)
  have "takeWhile (is_digit U) (r1 @ c # r) = takeWhile (is_digit U) r1"
    using assms(1) by (rule takeWhile_stop)
  moreover have "dropWhile (is_digit U) (r1 @ c # r) = dropWhile (is_digit U) r1 @ c # r"
    using assms(1) by (rule dropWhile_stop)
  ultimately show ?thesis unfolding Cons by (simp add: decimal_part_def)
qed

lemma match_amount_euro_stop:
  assumes "\<not> is_space c" and "c \<noteq> EURO" and "\<not> is_digit U c" and "c \<noteq> 46" and "c \<noteq> 44"
  shows "match_amount_euro U (s @ c # r) =
           map_option (\<lambda>(out, t). (out, t @ c # r)) (match_amount_euro U s)"
proof -
  have t: "takeWhile (is_digit U) (s @ c # r) = takeWhile (is_digit U) s"
    using assms(3) by (rule takeWhile_stop)
  have d: "dropWhile (is_digit U) (s @ c # r) = dropWhile (is_digit U) s @ c # r"
    using assms(3) by (rule dropWhile_stop)
  note e = euro_tail_stop [OF assms(1,2)] and p = decimal_part_stop [OF assms(3,4,5)]
  show ?thesis
    unfolding match_amount_euro_def Let_def t d e p
    by (auto simp: e split: option.splits)
qed

lemma amounts_append:
  assumes "\<not> is_space c" and "c \<noteq> EURO" and "\<not> is_digit U c" and "c \<noteq> 46" and "c \<noteq> 44"
  shows "re_sub (match_amount_euro U) (p @ c # r) =
           re_sub (match_amount_euro U) p @ re_sub (match_amount_euro U) (c # r)"
  by (rule re_sub_append) (rule match_amount_euro_stop [OF assms])

lemma amounts_head: "\<exists>t. re_sub (match_amount_euro U) (c # r) = c # t"
proof (cases "match_amount_euro U (c # r)")
  case None
  then show ?thesis by simp
next
  case (Some x)
  then obtain out t where m: "match_amount_euro U (c # r) = Some (out, t)" by (cases x) auto
  from m obtain amount ws ws' where d: "c # r = amount @ ws @ EURO # ws' @ t"
    and o: "out = amount @ [SPACE, 69, 85, 82, SPACE]" and a: "decimal_amount U amount"
    by (rule match_amount_euro_cases)
  have "amount \<noteq> []" using a by (rule amount_nonempty)
  then obtain o' where "out = c # o'" using d o by (cases amount) auto
  then show ?thesis using re_sub_amount_hit [OF m] by simp
qed

lemma amount_needs_digit: "\<not> is_digit U c \<Longrightarrow> match_amount_euro U (c # s) = None"
  by (simp add: match_amount_euro_def)

lemma amounts_skip: "\<not> is_digit U c \<Longrightarrow>
    re_sub (match_amount_euro U) (c # s) = c # re_sub (match_amount_euro U) s"
  by (rule re_sub_miss) (rule amount_needs_digit)

lemma amounts_keep_tail:
  assumes "\<not> is_space a" and "a \<noteq> EURO"
  shows "\<exists>Z. re_sub (match_amount_euro U) (x @ [a, SPACE]) = Z @ [a, SPACE]"
proof (induction "length x" arbitrary: x rule: less_induct)
  case less
  let ?A = "match_amount_euro U"
  show ?case
  proof (cases x)
    case Nil
    have "?A [a, SPACE] = None" "?A [SPACE] = None"
      using assms(2) by (simp_all add: match_amount_euro_needs_euro)
    then have "re_sub ?A ([] @ [a, SPACE]) = [] @ [a, SPACE]" by simp
    then show ?thesis unfolding Nil by (rule exI)
  next
    case (Cons c cs)
    show ?thesis
    proof (cases "?A (c # cs @ [a, SPACE])")
      case None
      obtain Z where "re_sub ?A (cs @ [a, SPACE]) = Z @ [a, SPACE]"
        using less [of cs] Cons by auto
      then have "re_sub ?A ((c # cs) @ [a, SPACE]) = (c # Z) @ [a, SPACE]"
        using None by simp
      then show ?thesis unfolding Cons by (rule exI)
    next
      case (Some v)
      then obtain out t where m: "?A (c # (cs @ [a, SPACE])) = Some (out, t)" by (cases v) auto
      from m obtain amount ws ws' where d: "c # (cs @ [a, SPACE]) = amount @ ws @ EURO # ws' @ t"
        and am: "decimal_amount U amount" and w': "list_all is_space ws'"
        and t: "t = [] \<or> \<not> is_space (hd t)"
        by (rule match_amount_euro_cases)
      have an: "amount \<noteq> []" using am by (rule amount_nonempty)
      let ?X = "amount @ ws"
      have e: "(?X @ EURO # ws') @ t = (c # cs) @ [a, SPACE]" using d by simp
      have "\<exists>t'. t = t' @ [a, SPACE] \<and> length t' < length (c # cs)"
      proof -
        from e obtain us where
          "(?X @ EURO # ws' = (c # cs) @ us \<and> us @ t = [a, SPACE]) \<or>
           ((?X @ EURO # ws') @ us = c # cs \<and> t = us @ [a, SPACE])"
          unfolding append_eq_append_conv2 by blast
        then show ?thesis
        proof
          assume r: "(?X @ EURO # ws') @ us = c # cs \<and> t = us @ [a, SPACE]"
          then have "length (c # cs) = length ?X + 1 + length ws' + length us"
            by (metis (no_types, lifting) length_append length_Cons One_nat_def add.assoc
                add.commute list.size(4) plus_1_eq_Suc)
          then have "length us < length (c # cs)" by simp
          with r show ?thesis by blast
        next
          assume l: "?X @ EURO # ws' = (c # cs) @ us \<and> us @ t = [a, SPACE]"
          then have ut: "us @ t = [a, SPACE]" by simp
          show ?thesis
          proof (cases us)
            case Nil
            with ut have "t = [] @ [a, SPACE]" by simp
            then show ?thesis by auto
          next
            case u1: (Cons u us1)
            show ?thesis
            proof (cases us1)
              case Nil
              with u1 ut have "t = [SPACE]" by simp
              then have False using t by (simp add: is_space_def)
              then show ?thesis ..
            next
              case (Cons u2 us2)
              with u1 ut have us: "us = [a, SPACE]" by simp
              have x: "?X @ EURO # ws' = ((c # cs) @ [a]) @ [SPACE]" using l us by simp
              have False
              proof (cases ws' rule: rev_cases)
                case Nil
                with x show False by simp
              next
                case (snoc ws'' s)
                with x have y: "?X @ EURO # ws'' = (c # cs) @ [a]" by simp
                show False
                proof (cases ws'' rule: rev_cases)
                  case Nil
                  with y have "a = EURO" by simp
                  with assms(2) show False by simp
                next
                  case s2: (snoc ws3 s')
                  with y have "s' = a" by simp
                  moreover have "is_space s'" using w' snoc s2 by simp
                  ultimately show False using assms(1) by simp
                qed
              qed
              then show ?thesis ..
            qed
          qed
        qed
      qed
      then obtain t' where t': "t = t' @ [a, SPACE]" and l: "length t' < length (c # cs)" by blast
      obtain Z where "re_sub ?A (t' @ [a, SPACE]) = Z @ [a, SPACE]"
        using less [of t'] l Cons by auto
      then have "re_sub ?A ((c # cs) @ [a, SPACE]) = (out @ Z) @ [a, SPACE]"
        using re_sub_amount_hit [OF m] t' by simp
      then show ?thesis unfolding Cons by (rule exI)
    qed
  qed
qed

lemma amounts_around_dash:
  assumes "is_word U a"
  shows "\<exists>Z1 Z2. re_sub (match_amount_euro U) (E1 @ a # [SPACE, EM_DASH, SPACE] @ b # E2) =
                   Z1 @ a # [SPACE, EM_DASH, SPACE] @ b # Z2"
proof -
  let ?A = "re_sub (match_amount_euro U)"
  have dash: "\<not> is_space EM_DASH" "EM_DASH \<noteq> EURO" "\<not> is_digit U EM_DASH" "EM_DASH \<noteq> 46" "EM_DASH \<noteq> 44"
    by (simp_all add: is_space_def is_digit_def symbol_or_space_def)
  have "?A ((E1 @ [a, SPACE]) @ EM_DASH # (SPACE # b # E2)) =
          ?A (E1 @ [a, SPACE]) @ ?A (EM_DASH # (SPACE # b # E2))"
    using dash by (rule amounts_append)
  moreover obtain Z1 where "?A (E1 @ [a, SPACE]) = Z1 @ [a, SPACE]"
    using amounts_keep_tail [OF word_facts(1,3) [OF assms]] by blast
  moreover obtain Z2 where "?A (b # E2) = b # Z2" using amounts_head by blast
  moreover have "?A (EM_DASH # SPACE # b # E2) = EM_DASH # SPACE # ?A (b # E2)"
  proof -
    have sp: "\<not> is_digit U SPACE" by (simp add: is_digit_def)
    show ?thesis unfolding amounts_skip [OF dash(3)] amounts_skip [OF sp] ..
  qed
  ultimately have "?A ((E1 @ [a, SPACE]) @ EM_DASH # (SPACE # b # E2)) =
                     (Z1 @ [a, SPACE]) @ EM_DASH # SPACE # b # Z2"
    by simp
  then have "?A (E1 @ a # [SPACE, EM_DASH, SPACE] @ b # E2) = Z1 @ a # [SPACE, EM_DASH, SPACE] @ b # Z2"
    by simp
  then show ?thesis by blast
qed

subsection \<open>Rules 4 and 5 keep a text that stands on one line\<close>

lemma split_lines_text: "NL \<notin> set S \<Longrightarrow>
    split_lines (S @ q) = (S @ hd (split_lines q)) # tl (split_lines q)"
proof (induction S)
  case Nil
  then show ?case using split_lines_nonempty [of q] by simp
next
  case (Cons c S)
  then have "c \<noteq> NL" by auto
  then have "split_lines (c # (S @ q)) = (c # hd (split_lines (S @ q))) # tl (split_lines (S @ q))"
    by (rule split_lines_Cons)
  then show ?case using Cons by simp
qed

lemma split_lines_holds:
  assumes "NL \<notin> set S"
  shows "\<exists>before l1 l2 after. split_lines (p @ S @ q) = before @ (l1 @ S @ l2) # after"
proof (induction p)
  case Nil
  have "split_lines ([] @ S @ q) = [] @ ([] @ S @ hd (split_lines q)) # tl (split_lines q)"
    using split_lines_text [OF assms, of q] by simp
  then show ?case by blast
next
  case (Cons c p)
  then obtain before l1 l2 after where i: "split_lines (p @ S @ q) = before @ (l1 @ S @ l2) # after"
    by blast
  show ?case
  proof (cases "c = NL")
    case True
    then have "split_lines ((c # p) @ S @ q) = ([] # before) @ (l1 @ S @ l2) # after"
      using i by simp
    then show ?thesis by blast
  next
    case False
    then have s: "split_lines ((c # p) @ S @ q) =
                    (c # hd (split_lines (p @ S @ q))) # tl (split_lines (p @ S @ q))"
      using split_lines_Cons [of c "p @ S @ q"] by simp
    show ?thesis
    proof (cases before)
      case Nil
      then have "split_lines ((c # p) @ S @ q) = [] @ ((c # l1) @ S @ l2) # after"
        unfolding s i by simp
      then show ?thesis by blast
    next
      case (Cons b bs)
      then have "split_lines ((c # p) @ S @ q) = ((c # b) # bs) @ (l1 @ S @ l2) # after"
        unfolding s i by simp
      then show ?thesis by blast
    qed
  qed
qed

lemma rstrip_around_text:
  assumes "X \<noteq> []" and "\<not> P (last X)"
  shows "\<exists>q'. rstrip_by P (p @ X @ q) = p @ X @ q'"
proof -
  have k: "rstrip_by P (p @ X) = p @ X"
    using assms by (intro rstrip_by_keeps) auto
  have "rstrip_by P ((p @ X) @ q) =
          (if list_all P q then rstrip_by P (p @ X) else (p @ X) @ rstrip_by P q)"
    by (rule rstrip_by_append)
  then have "rstrip_by P ((p @ X) @ q) = (p @ X) @ (if list_all P q then [] else rstrip_by P q)"
    unfolding k by simp
  then show ?thesis by auto
qed

lemma lstrip_around_text:
  assumes "X \<noteq> []" and "\<not> P (hd X)"
  shows "\<exists>p'. dropWhile P (p @ X @ q) = p' @ X @ q"
proof (cases "\<forall>c\<in>set p. P c")
  case True
  then have "dropWhile P (p @ X @ q) = dropWhile P (X @ q)" by (simp add: dropWhile_append)
  also have "\<dots> = [] @ X @ q" using assms by (cases X) auto
  finally show ?thesis by blast
next
  case False
  then obtain z where "z \<in> set p" "\<not> P z" by blast
  then have "dropWhile P (p @ X @ q) = dropWhile P p @ X @ q" by (simp add: dropWhile_append1)
  then show ?thesis by blast
qed

lemma strip_around_text:
  assumes "X \<noteq> []" and "\<not> is_space (hd X)" and "\<not> is_space (last X)"
  shows "\<exists>p' q'. strip (p @ X @ q) = p' @ X @ q'"
proof -
  obtain q' where "rstrip_by is_space (p @ X @ q) = p @ X @ q'"
    using rstrip_around_text [where P = is_space, OF assms(1,3)] by blast
  moreover obtain p' where "dropWhile is_space (p @ X @ q') = p' @ X @ q'"
    using lstrip_around_text [where P = is_space, OF assms(1,2)] by blast
  ultimately have "strip (p @ X @ q) = p' @ X @ q'"
    by (simp add: strip_def lstrip_by_def)
  then show ?thesis by blast
qed

lemma merge_rows_holds:
  assumes "X \<noteq> []" and "\<not> is_space (hd X)" and "\<not> is_space (last X)"
  shows "\<exists>R x1 x2. R \<in> set (merge_rows (before @ (l1 @ X @ l2) # after)) \<and> R = x1 @ X @ x2"
proof -
  let ?line = "l1 @ X @ l2"
  let ?m = "foldl merge_step [] before"
  have "\<exists>rows x1 x2. merge_step ?m ?line = rows @ [x1 @ X @ x2]"
  proof (cases "is_continuation ?line \<and> ?m \<noteq> []")
    case True
    obtain p' q' where "strip ?line = p' @ X @ q'"
      using strip_around_text [OF assms] by blast
    then have "merge_step ?m ?line = butlast ?m @ [(last ?m @ [SPACE] @ p') @ X @ q']"
      using True by (simp add: merge_step_def)
    then show ?thesis by blast
  next
    case False
    then have "merge_step ?m ?line = ?m @ [l1 @ X @ l2]"
      by (auto simp: merge_step_def)
    then show ?thesis by blast
  qed
  then obtain rows x1 x2 where s: "merge_step ?m ?line = rows @ [x1 @ X @ x2]" by blast
  obtain ext rest where
    "foldl merge_step (rows @ [x1 @ X @ x2]) after = rows @ ((x1 @ X @ x2) @ ext) # rest"
    using foldl_merge_grows [of rows "x1 @ X @ x2" after] by blast
  then have "merge_rows (before @ ?line # after) = rows @ (x1 @ X @ (x2 @ ext)) # rest"
    using s by (simp add: merge_rows_def)
  then have "x1 @ X @ (x2 @ ext) \<in> set (merge_rows (before @ ?line # after))" by simp
  then show ?thesis by blast
qed

lemma tidy_holds_text:
  assumes "R \<in> set rows" and "R = x1 @ X @ x2" and "X \<noteq> []" and "NL \<notin> set X"
    and "\<not> is_space (last X)"
  shows "has_infix X (tidy rows)"
proof -
  obtain q' where "rstrip R = x1 @ X @ q'"
    using rstrip_around_text [where P = is_space, OF assms(3,5), of x1 x2]
    unfolding assms(2) rstrip_def by blast
  moreover have "rstrip R \<in> set (map rstrip rows)" using assms(1) by simp
  ultimately have "x1 @ X @ q' \<in> set (map rstrip rows)" by simp
  then obtain p q where "join_lines (map rstrip rows) = p @ (x1 @ X @ q') @ q"
    using join_lines_holds by blast
  then have j: "join_lines (map rstrip rows) = (p @ x1) @ X @ (q' @ q)" by simp
  have "re_sub match_blank_run ((p @ x1) @ X @ (q' @ q)) =
          re_sub match_blank_run (p @ x1) @ X @ re_sub match_blank_run (q' @ q)"
    using assms(3,4) by (rule blank_runs_around_text)
  moreover obtain p' q'' where
    "strip_newlines (re_sub match_blank_run (p @ x1) @ X @ re_sub match_blank_run (q' @ q)) = p' @ X @ q''"
    using strip_newlines_around_text [OF assms(3,4)] by blast
  ultimately have "tidy rows = p' @ X @ q''" by (simp add: tidy_def j)
  then show ?thesis unfolding has_infix_iff by blast
qed

lemma rows_hold_text:
  assumes "X \<noteq> []" and "NL \<notin> set X" and "\<not> is_space (hd X)" and "\<not> is_space (last X)"
  shows "has_infix X (tidy (merge_rows (split_lines (p @ X @ q))))"
proof -
  obtain before l1 l2 after where s: "split_lines (p @ X @ q) = before @ (l1 @ X @ l2) # after"
    using split_lines_holds [OF assms(2)] by blast
  obtain R x1 x2 where "R \<in> set (merge_rows (before @ (l1 @ X @ l2) # after))" "R = x1 @ X @ x2"
    using merge_rows_holds [OF assms(1,3,4)] by blast
  then show ?thesis unfolding s using assms(1,2,4) by (rule tidy_holds_text)
qed

text \<open>
  When rule 2 has written a spaced em dash between two word characters, the output holds
  the two characters around the spaced em dash; rule 3 may have changed either to its
  upper case, as a letter of the currency code.
\<close>

lemma normalize_holds_dash:
  assumes "raw \<noteq> []" and "is_word U w1" and "is_word U w2"
    and "fix_replacement_char U (html_breaks raw) = L @ w1 # [SPACE, EM_DASH, SPACE] @ w2 # Y"
  shows "\<exists>a b. same_letter w1 a \<and> same_letter w2 b \<and>
           has_infix [a, SPACE, EM_DASH, SPACE, b] (normalize_for_llm U raw)"
proof -
  obtain E1 a b E2 where
    e: "upper_eur U None (L @ w1 # [SPACE, EM_DASH, SPACE] @ w2 # Y) =
          E1 @ a # [SPACE, EM_DASH, SPACE] @ b # E2"
    and a: "same_letter w1 a" and b: "same_letter w2 b"
    using upper_eur_around_dash by blast
  have wa: "is_word U a" using assms(2) same_letter_word [OF a] by simp
  have wb: "is_word U b" using assms(3) same_letter_word [OF b] by simp
  obtain Z1 Z2 where
    z: "re_sub (match_amount_euro U) (E1 @ a # [SPACE, EM_DASH, SPACE] @ b # E2) =
          Z1 @ a # [SPACE, EM_DASH, SPACE] @ b # Z2"
    using amounts_around_dash [OF wa] by blast
  have c: "normalize_currency U (fix_replacement_char U (html_breaks raw)) =
             Z1 @ [a, SPACE, EM_DASH, SPACE, b] @ Z2"
    unfolding normalize_currency_def assms(4) e z by simp
  have "has_infix [a, SPACE, EM_DASH, SPACE, b]
          (tidy (merge_rows (split_lines (Z1 @ [a, SPACE, EM_DASH, SPACE, b] @ Z2))))"
    using word_facts(1,5) [OF wa] word_facts(1,5) [OF wb]
    by (intro rows_hold_text) (simp_all add: is_space_def)
  then have "has_infix [a, SPACE, EM_DASH, SPACE, b] (normalize_for_llm U raw)"
    using assms(1) unfolding normalize_for_llm_def c by simp
  then show ?thesis using a b by blast
qed

text \<open>
  C7, as the code has it. Take any text and any replacement character in it that stands
  between two word characters \<open>w1\<close> and \<open>w2\<close>, white space allowed on either side of it.
  Rule 2 rewrites the text up to \<open>w1\<close> as it would on its own, and writes a space, an em
  dash and a space for the marker and the white space around it, between \<open>w1\<close> and \<open>w2\<close>:
  the word-pair rule wins over the digit rule and the fallback, also when \<open>w1\<close> is a
  digit. The one exception is a digit \<open>w1\<close> that is already the right end of the match of
  the word-pair pattern before it: matches of one pattern do not overlap, the marker is
  left to the digit rule, and the euro sign and a space are written for it. (When \<open>w1\<close> is
  such a right end and no digit, the fallback rule writes the spaced em dash.) Outside
  the exception the output of \<open>normalize_for_llm\<close> holds \<open>w1\<close>, the spaced em dash and \<open>w2\<close>
  in a row, where rule 3 may have changed either character to its upper case, as a letter
  of the currency code. For the text that holds just the two word characters around the
  marker, \<open>normalize_for_llm\<close> returns the two characters around the spaced em dash.
\<close>

theorem marker_between_words:
  assumes "is_word U w1" "is_word U w2" "list_all is_space ws1" "list_all is_space ws2"
  shows "(\<exists>L Y. fix_replacement_char U (html_breaks (pre @ [w1])) = L @ [w1] \<and>
            fix_replacement_char U (html_breaks (pre @ w1 # ws1 @ REPLACEMENT_CHAR # ws2 @ w2 # post)) =
              L @ w1 #
              (if is_digit U w1 \<and> ends_pair U (html_breaks pre) w1
               then [EURO, SPACE] else [SPACE, EM_DASH, SPACE]) @ w2 # Y) \<and>
         (\<not> (is_digit U w1 \<and> ends_pair U (html_breaks pre) w1) \<longrightarrow>
            (\<exists>a b. same_letter w1 a \<and> same_letter w2 b \<and>
               has_infix [a, SPACE, EM_DASH, SPACE, b]
                 (normalize_for_llm U (pre @ w1 # ws1 @ REPLACEMENT_CHAR # ws2 @ w2 # post)))) \<and>
         normalize_for_llm U (w1 # ws1 @ REPLACEMENT_CHAR # ws2 @ [w2]) =
           [w1, SPACE, EM_DASH, SPACE, w2]"
proof (intro conjI impI)
  let ?raw = "pre @ w1 # ws1 @ REPLACEMENT_CHAR # ws2 @ w2 # post"
  let ?P = "html_breaks pre"
  note h = html_breaks_around_marker(1) [OF assms, of pre post]
    html_breaks_around_marker(2) [OF assms, of pre]
  obtain L Y where l: "fix_replacement_char U (?P @ [w1]) = L @ [w1]"
    and f: "fix_replacement_char U (?P @ w1 # ws1 @ REPLACEMENT_CHAR # ws2 @ w2 # html_breaks post) =
              L @ w1 #
              (if is_digit U w1 \<and>
                  re_sub (match_word_pair U) (?P @ [w1]) \<noteq> re_sub (match_word_pair U) ?P @ [w1]
               then [EURO, SPACE] else [SPACE, EM_DASH, SPACE]) @ w2 # Y"
    using marker_rule2 [OF assms, of ?P "html_breaks post"] by blast
  have r2: "fix_replacement_char U (html_breaks (pre @ [w1])) = L @ [w1] \<and>
            fix_replacement_char U (html_breaks ?raw) =
              L @ w1 #
              (if is_digit U w1 \<and> ends_pair U ?P w1
               then [EURO, SPACE] else [SPACE, EM_DASH, SPACE]) @ w2 # Y"
    unfolding h ends_pair_def using l f by simp
  then show "\<exists>L Y. fix_replacement_char U (html_breaks (pre @ [w1])) = L @ [w1] \<and>
            fix_replacement_char U (html_breaks ?raw) =
              L @ w1 #
              (if is_digit U w1 \<and> ends_pair U ?P w1
               then [EURO, SPACE] else [SPACE, EM_DASH, SPACE]) @ w2 # Y"
    by blast
  show "\<exists>a b. same_letter w1 a \<and> same_letter w2 b \<and>
          has_infix [a, SPACE, EM_DASH, SPACE, b] (normalize_for_llm U ?raw)"
    if "\<not> (is_digit U w1 \<and> ends_pair U ?P w1)"
  proof -
    have "fix_replacement_char U (html_breaks ?raw) = L @ w1 # [SPACE, EM_DASH, SPACE] @ w2 # Y"
      using r2 that by simp
    moreover have "?raw \<noteq> []" by simp
    ultimately show ?thesis
      using assms(1,2) by (intro normalize_holds_dash) simp_all
  qed
next
  note w1 = word_facts [OF assms(1)] and w2 = word_facts [OF assms(2)]
  let ?t = "w1 # ws1 @ REPLACEMENT_CHAR # ws2 @ [w2]"
  let ?o = "[w1, SPACE, EM_DASH, SPACE, w2]"
  have sp: "\<And>x. x \<in> set ws1 \<union> set ws2 \<Longrightarrow> is_space x"
    using assms(3,4) by (auto simp: list_all_iff)
  have h: "html_breaks ?t = ?t"
    using w1 w2 sp space_facts(3) by (intro html_breaks_noop) auto
  have "re_sub (match_digit_marker U) [w2] = [w2]"
    by (simp add: match_digit_marker_def)
  then have f: "fix_replacement_char U ?t = ?o"
    using first_marker_between_words [OF assms(1-4), of "[]" "[]"] by simp
  have u: "upper_eur U None ?o = ?o"
    by (simp add: eur_letters_def)
  have e: "re_sub (match_amount_euro U) ?o = ?o"
    using w1 w2 by (intro amount_euro_noop) auto
  have nl: "NL \<notin> set ?o" using w1 w2 by auto
  have r: "rstrip ?o = ?o"
    using w2(1) rstrip_by_snoc [of is_space w2 "[w1, SPACE, EM_DASH, SPACE]"] by (simp add: rstrip_def)
  have c: "normalize_currency U ?o = ?o"
    unfolding normalize_currency_def u e ..
  have "tidy (merge_rows (split_lines ?o)) = ?o"
    using rows_of_one_line [OF nl] r by simp
  then show "normalize_for_llm U ?t = ?o"
    unfolding normalize_for_llm_def h f c by simp
qed

theorem marker_between_words_witness:
  "is_word ascii_only 53 \<and> is_digit ascii_only 53 \<and>
   \<not> ends_pair ascii_only (html_breaks (ascii ''a'' @ [REPLACEMENT_CHAR] @ ascii ''b '')) 53 \<and>
   normalize_for_llm ascii_only
     (ascii ''a'' @ [REPLACEMENT_CHAR] @ ascii ''b 5 '' @ [REPLACEMENT_CHAR] @ ascii ''x'') =
     ascii ''a '' @ [EM_DASH] @ ascii '' b 5 '' @ [EM_DASH] @ ascii '' x'' \<and>
   has_infix (ascii ''5 '' @ [EM_DASH] @ ascii '' x'')
     (normalize_for_llm ascii_only
        (ascii ''a'' @ [REPLACEMENT_CHAR] @ ascii ''b 5 '' @ [REPLACEMENT_CHAR] @ ascii ''x'')) \<and>
   normalize_for_llm ascii_only (ascii ''5 '' @ [REPLACEMENT_CHAR] @ ascii ''x'') =
     ascii ''5 '' @ [EM_DASH] @ ascii '' x''"
proof -
  let ?pre = "ascii ''a'' @ [REPLACEMENT_CHAR] @ ascii ''b ''"
  have 1: "is_word ascii_only 53" "is_word ascii_only 120" by (simp_all add: is_word_def)
  have 2: "list_all is_space [SPACE]" "list_all is_space []" by (simp_all add: is_space_def)
  have 3: "is_digit ascii_only 53" by (simp add: is_digit_def)
  have 4: "\<not> ends_pair ascii_only (html_breaks ?pre) 53"
    by (simp add: ends_pair_def eval_defs)
  have 5: "normalize_for_llm ascii_only
             (ascii ''a'' @ [REPLACEMENT_CHAR] @ ascii ''b 5 '' @ [REPLACEMENT_CHAR] @ ascii ''x'') =
           ascii ''a '' @ [EM_DASH] @ ascii '' b 5 '' @ [EM_DASH] @ ascii '' x''"
    by (simp add: eval_defs)
  note t = marker_between_words [OF 1 2, of ?pre "[]"]
  have "\<exists>a b. same_letter 53 a \<and> same_letter 120 b \<and>
          has_infix [a, SPACE, EM_DASH, SPACE, b]
            (normalize_for_llm ascii_only (?pre @ 53 # [SPACE] @ REPLACEMENT_CHAR # [] @ 120 # []))"
    using t 4 by blast
  then have 6: "has_infix [53, SPACE, EM_DASH, SPACE, 120]
            (normalize_for_llm ascii_only (?pre @ 53 # [SPACE] @ REPLACEMENT_CHAR # [] @ 120 # []))"
    by (auto simp: same_letter_def)
  have 7: "normalize_for_llm ascii_only (53 # [SPACE] @ REPLACEMENT_CHAR # [] @ [120]) =
             [53, SPACE, EM_DASH, SPACE, 120]"
    using t by blast
  show ?thesis
    using 1(1) 3 4 5 6 7 by (simp add: ascii_def)
qed

text \<open>
  The claim as the spec words it fails for a marker whose left word character is a digit
  and the right end of the match before it: the second marker below, between the word
  characters \<open>1\<close> and \<open>c\<close>, is left to the digit rule and becomes the currency.
\<close>

theorem marker_after_shared_digit:
  "normalize_for_llm ascii_only (ascii ''a'' @ [REPLACEMENT_CHAR] @ ascii ''1'' @ [REPLACEMENT_CHAR] @ ascii ''c'') =
     ascii ''a '' @ [EM_DASH] @ ascii '' 1 EUR c'' \<and>
   is_word ascii_only 49 \<and> is_word ascii_only 99 \<and>
   is_digit ascii_only 49 \<and> ends_pair ascii_only (html_breaks (ascii ''a'' @ [REPLACEMENT_CHAR])) 49"
  by (simp add: eval_defs ends_pair_def)

end
